theory Spec2Isabelle
  imports Complex_Main "HOL-Library.Word" "HOL-Library.AList"
begin

section \<open>JavaScript values\<close>

text \<open>
  A JavaScript string is a sequence of 16-bit code units. \<open>js\<close> writes an ASCII literal
  of the source as such a sequence.
\<close>

type_synonym jschar = "16 word"
type_synonym jsstring = "jschar list"

definition js :: "string \<Rightarrow> jsstring" where
  "js s = map (\<lambda>c. of_nat (of_char c)) s"

text \<open>
  Numbers. The server never does arithmetic on a number of a message: it compares it,
  takes a minimum and passes it on. A finite double is therefore kept as the real number
  it denotes; \<open>NaN\<close> and the two infinities are values of their own (\<open>JSON.parse\<close> returns
  \<open>Infinity\<close> for a literal such as \<open>1e999\<close>).
\<close>

datatype jsnum = NaN | Num real | PosInf | NegInf

datatype json =
    JNull
  | JBool bool
  | JNum jsnum
  | JStr jsstring
  | JArr "json list"
  | JObj "(jsstring \<times> json) list"

text \<open>The only exception the handlers can raise; nothing catches it.\<close>

datatype error = TypeError

definition bind_err :: "error + 'a \<Rightarrow> ('a \<Rightarrow> error + 'b) \<Rightarrow> error + 'b" where
  "bind_err m f = (case m of Inl e \<Rightarrow> Inl e | Inr v \<Rightarrow> f v)"

text \<open>
  Built-ins of the language that the source calls and that are not defined here: the
  grammar of numeric strings (\<open>Number("12")\<close>) and the conversion of an array or an object
  to a number (\<open>ToPrimitive\<close> followed by \<open>ToNumber\<close>, which raises \<open>TypeError\<close> when the
  object overrides \<open>toString\<close> by a value that is not callable). Every definition that
  coerces a field takes them as a parameter.
\<close>

record builtins =
  StringToNumber :: "jsstring \<Rightarrow> jsnum"
  ObjectToNumber :: "json \<Rightarrow> error + jsnum"

text \<open>\<open>msg.f\<close> for a decoded message: \<open>None\<close> is \<open>undefined\<close>. None of the property names the
  source reads exists on a prototype, so only an object has them.\<close>

definition fld :: "json \<Rightarrow> string \<Rightarrow> json option" where
  "fld msg f = (case msg of JObj kvs \<Rightarrow> map_of kvs (js f) | _ \<Rightarrow> None)"

definition truthy_num :: "jsnum \<Rightarrow> bool" where
  "truthy_num n = (n \<noteq> NaN \<and> n \<noteq> Num 0)"

fun truthy :: "json option \<Rightarrow> bool" where
  "truthy None = False"
| "truthy (Some JNull) = False"
| "truthy (Some (JBool b)) = b"
| "truthy (Some (JNum n)) = truthy_num n"
| "truthy (Some (JStr s)) = (s \<noteq> [])"
| "truthy (Some (JArr xs)) = True"
| "truthy (Some (JObj kvs)) = True"

text \<open>\<open>v || d\<close>\<close>

definition or_else :: "json option \<Rightarrow> json \<Rightarrow> json" where
  "or_else v d = (case v of None \<Rightarrow> d | Some j \<Rightarrow> if truthy v then j else d)"

text \<open>\<open>Number(v)\<close>\<close>

fun ToNumber :: "builtins \<Rightarrow> json option \<Rightarrow> error + jsnum" where
  "ToNumber B None = Inr NaN"
| "ToNumber B (Some JNull) = Inr (Num 0)"
| "ToNumber B (Some (JBool b)) = Inr (Num (if b then 1 else 0))"
| "ToNumber B (Some (JNum n)) = Inr n"
| "ToNumber B (Some (JStr s)) = Inr (StringToNumber B s)"
| "ToNumber B (Some (JArr xs)) = ObjectToNumber B (JArr xs)"
| "ToNumber B (Some (JObj kvs)) = ObjectToNumber B (JObj kvs)"

text \<open>\<open>Number(v) || d\<close>\<close>

definition num_or :: "builtins \<Rightarrow> json option \<Rightarrow> jsnum \<Rightarrow> error + jsnum" where
  "num_or B v d = bind_err (ToNumber B v) (\<lambda>n. Inr (if truthy_num n then n else d))"

fun js_le :: "jsnum \<Rightarrow> jsnum \<Rightarrow> bool" where
  "js_le NaN b = False"
| "js_le a NaN = False"
| "js_le NegInf b = True"
| "js_le a PosInf = True"
| "js_le (Num a) (Num b) = (a \<le> b)"
| "js_le a b = False"

definition Math_min :: "jsnum \<Rightarrow> jsnum \<Rightarrow> jsnum" where
  "Math_min a b = (if a = NaN \<or> b = NaN then NaN else if js_le a b then a else b)"

text \<open>\<open>s.slice(b, e)\<close> for \<open>0 \<le> b \<le> e\<close>, on a string or an array.\<close>

definition slice_list :: "nat \<Rightarrow> nat \<Rightarrow> 'a list \<Rightarrow> 'a list" where
  "slice_list b e xs = take (e - b) (drop b xs)"

text \<open>\<open>s.replace(/[cs]/g, '')\<close>\<close>

definition strip :: "jsstring \<Rightarrow> jsstring \<Rightarrow> jsstring" where
  "strip cs s = filter (\<lambda>c. c \<notin> set cs) s"

section \<open>Sanitization\<close>

text \<open>\<open>.slice(0, 16).replace(/[<>&"']/g, '')\<close> of the join handler.\<close>

definition sanitize_name :: "jsstring \<Rightarrow> jsstring" where
  "sanitize_name s =
     strip (js [CHR ''<'', CHR ''>'', CHR ''&'', CHR 0x22, CHR 0x27]) (slice_list 0 16 s)"

text \<open>\<open>.slice(0, 200).replace(/[<>&]/g, '')\<close> of the chat handler.\<close>

definition sanitize_chat :: "jsstring \<Rightarrow> jsstring" where
  "sanitize_chat s = strip (js ''<>&'') (slice_list 0 200 s)"

text \<open>
  \<open>(msg.name || 'Player').slice(0, 16).replace(...)\<close>. A truthy name that is not a string
  has no \<open>slice\<close> (a number, \<open>true\<close>, an object) or its slice has no \<open>replace\<close> (an array):
  the call raises \<open>TypeError\<close>.
\<close>

definition join_name :: "json option \<Rightarrow> error + jsstring" where
  "join_name v = (case or_else v (JStr (js ''Player'')) of
                    JStr s \<Rightarrow> Inr (sanitize_name s)
                  | _ \<Rightarrow> Inl TypeError)"

text \<open>\<open>(msg.text || '').slice(0, 200).replace(...)\<close>\<close>

definition chat_text :: "json option \<Rightarrow> error + jsstring" where
  "chat_text v = (case or_else v (JStr []) of
                    JStr s \<Rightarrow> Inr (sanitize_chat s)
                  | _ \<Rightarrow> Inl TypeError)"

text \<open>\<open>(msg.itemId || '').slice(0, 64)\<close>: an array has a \<open>slice\<close> too.\<close>

definition item_id :: "json option \<Rightarrow> error + json" where
  "item_id v = (case or_else v (JStr []) of
                  JStr s \<Rightarrow> Inr (JStr (slice_list 0 64 s))
                | JArr xs \<Rightarrow> Inr (JArr (slice_list 0 64 xs))
                | _ \<Rightarrow> Inl TypeError)"

text \<open>\<open>Math.min(Number(msg.quantity) || 1, 1000)\<close>\<close>

definition drop_quantity :: "builtins \<Rightarrow> json option \<Rightarrow> error + jsnum" where
  "drop_quantity B v = bind_err (num_or B v (Num 1)) (\<lambda>n. Inr (Math_min n (Num 1000)))"

section \<open>Server state\<close>

text \<open>
  A connection handle \<open>ws\<close> is an object of the transport; a session record \<open>pData\<close> is
  an object too, shared between the registry \<open>players\<close> and the closure of its
  connection. Both are addresses here, and \<open>heap\<close> holds the session records, so that a
  write through the closure is seen through the registry.
\<close>

type_synonym ws = nat
type_synonym ref = nat

datatype ready_state = CONNECTING | OPEN | CLOSING | CLOSED

record stats =
  level :: jsnum
  combatStyle :: json
  hp :: jsnum
  maxHp :: jsnum
  area :: json

record pdata =
  p_id :: jsstring
  p_name :: jsstring
  p_x :: jsnum
  p_z :: jsnum
  p_ry :: jsnum
  p_moving :: bool
  p_equipment :: json
  p_stats :: stats
  p_lastPing :: int

text \<open>An element of \<open>players\<close> in the \<open>welcome\<close> message.\<close>

record roster_entry =
  r_id :: jsstring
  r_name :: jsstring
  r_x :: jsnum
  r_z :: jsnum
  r_ry :: jsnum
  r_moving :: bool
  r_equipment :: json
  r_stats :: stats

text \<open>
  The objects handed to \<open>JSON.stringify\<close> and sent. The fields are in the order of the
  source: \<open>AttackMsg id name enemyId damage style x z\<close>,
  \<open>GroundDropMsg id name x z itemId quantity\<close>.
\<close>

datatype payload =
    ErrorMsg jsstring
  | WelcomeMsg jsstring "roster_entry list"
  | JoinMsg jsstring jsstring
  | MoveMsg jsstring jsnum jsnum jsnum bool
  | ChatMsg jsstring jsstring jsstring
  | EquipMsg jsstring json
  | StatsMsg jsstring stats
  | AttackMsg jsstring jsstring "json option" jsnum json jsnum jsnum
  | EnemyKillMsg jsstring jsstring "json option"
  | GroundDropMsg jsstring jsstring jsnum jsnum json jsnum
  | LeaveMsg jsstring
  | PingMsg

fun ptype :: "payload \<Rightarrow> string" where
  "ptype (ErrorMsg m) = ''error''"
| "ptype (WelcomeMsg i ps) = ''welcome''"
| "ptype (JoinMsg i n) = ''join''"
| "ptype (MoveMsg i x z ry m) = ''move''"
| "ptype (ChatMsg i n t) = ''chat''"
| "ptype (EquipMsg i e) = ''equip''"
| "ptype (StatsMsg i st) = ''stats''"
| "ptype (AttackMsg i n e d st x z) = ''attack''"
| "ptype (EnemyKillMsg i n e) = ''enemyKill''"
| "ptype (GroundDropMsg i n x z it q) = ''groundDrop''"
| "ptype (LeaveMsg i) = ''leave''"
| "ptype PingMsg = ''ping''"

text \<open>The variables \<open>joined\<close> and \<open>pData\<close> of one connection callback.\<close>

record closure =
  joined :: bool
  pData :: "ref option"

text \<open>
  \<open>players\<close> is the \<open>Map\<close>, in insertion order. \<open>closures\<close> is \<open>None\<close> for a connection
  whose callback returned before it registered its handlers. \<open>readyState\<close> is \<open>None\<close> for
  a handle the transport has not created. \<open>sent\<close> records every \<open>ws.send\<close>, in order.
  Cells of \<open>heap\<close> at \<open>nextRef\<close> and beyond are not allocated.
\<close>

record server =
  players :: "(ws \<times> ref) list"
  heap :: "ref \<Rightarrow> pdata"
  nextRef :: ref
  closures :: "ws \<Rightarrow> closure option"
  readyState :: "ws \<Rightarrow> ready_state option"
  sent :: "(ws \<times> payload) list"

definition MAX_PLAYERS :: nat where
  "MAX_PLAYERS = 20"

definition HEARTBEAT_TIMEOUT :: int where
  "HEARTBEAT_TIMEOUT = 30000"

definition default_stats :: stats where
  "default_stats = \<lparr>level = Num 1, combatStyle = JStr (js ''nano''), hp = Num 100,
                     maxHp = Num 100, area = JStr (js ''station-hub'')\<rparr>"

definition new_pdata :: "jsstring \<Rightarrow> jsstring \<Rightarrow> int \<Rightarrow> pdata" where
  "new_pdata i n now = \<lparr>p_id = i, p_name = n, p_x = Num 0, p_z = Num 0, p_ry = Num 0,
                         p_moving = False, p_equipment = JObj [], p_stats = default_stats,
                         p_lastPing = now\<rparr>"

definition init :: server where
  "init = \<lparr>players = [], heap = (\<lambda>r. new_pdata [] [] 0), nextRef = 0,
           closures = (\<lambda>w. None), readyState = (\<lambda>w. None), sent = []\<rparr>"

text \<open>What a session receives: the payloads sent to its handle.\<close>

definition received :: "server \<Rightarrow> ws \<Rightarrow> payload list" where
  "received s w = map snd (filter (\<lambda>m. fst m = w) (sent s))"

definition registered :: "server \<Rightarrow> ws \<Rightarrow> bool" where
  "registered s w = (w \<in> fst ` set (players s))"

definition registry_ids :: "server \<Rightarrow> jsstring list" where
  "registry_ids s = map (\<lambda>e. p_id (heap s (snd e))) (players s)"

section \<open>Transport calls\<close>

text \<open>
  The calls of the source into the transport library, by their effect on the socket:
  \<open>ws.send\<close> appends to \<open>sent\<close>; \<open>ws.close()\<close> and \<open>ws.terminate()\<close> leave an open socket
  closing and do nothing to a closed one.
\<close>

definition ws_send :: "ws \<Rightarrow> payload \<Rightarrow> server \<Rightarrow> server" where
  "ws_send w d s = s\<lparr>sent := sent s @ [(w, d)]\<rparr>"

definition ws_close :: "ws \<Rightarrow> server \<Rightarrow> server" where
  "ws_close w s = (case readyState s w of
                     Some OPEN \<Rightarrow> s\<lparr>readyState := (readyState s)(w \<mapsto> CLOSING)\<rparr>
                   | _ \<Rightarrow> s)"

definition ws_terminate :: "ws \<Rightarrow> server \<Rightarrow> server" where
  "ws_terminate w s = (case readyState s w of
                         Some OPEN \<Rightarrow> s\<lparr>readyState := (readyState s)(w \<mapsto> CLOSING)\<rparr>
                       | _ \<Rightarrow> s)"

section \<open>The server\<close>

text \<open>\<open>Math.random().toString(36).slice(2, 10)\<close>, given the rendering of the random number.\<close>

definition genId :: "jsstring \<Rightarrow> jsstring" where
  "genId rnd = slice_list 2 10 rnd"

fun broadcast_loop :: "payload \<Rightarrow> ws option \<Rightarrow> (ws \<times> ref) list \<Rightarrow> server \<Rightarrow> server" where
  "broadcast_loop d exclude [] s = s"
| "broadcast_loop d exclude (e # rest) s =
     broadcast_loop d exclude rest
       (if Some (fst e) \<noteq> exclude \<and> readyState s (fst e) = Some OPEN
        then ws_send (fst e) d s else s)"

definition broadcast :: "payload \<Rightarrow> ws option \<Rightarrow> server \<Rightarrow> server" where
  "broadcast d exclude s = broadcast_loop d exclude (players s) s"

definition sendTo :: "ws \<Rightarrow> payload \<Rightarrow> server \<Rightarrow> server" where
  "sendTo w d s = (if readyState s w = Some OPEN then ws_send w d s else s)"

text \<open>The connection callback: refuse when full, otherwise register the handlers.\<close>

definition on_connection :: "ws \<Rightarrow> server \<Rightarrow> server" where
  "on_connection w s =
     (if length (players s) \<ge> MAX_PLAYERS
      then ws_close w (sendTo w (ErrorMsg (js ''Server full'')) s)
      else s\<lparr>closures := (closures s)(w \<mapsto> \<lparr>joined = False, pData = None\<rparr>)\<rparr>)"

definition entry_of :: "pdata \<Rightarrow> roster_entry" where
  "entry_of p = \<lparr>r_id = p_id p, r_name = p_name p, r_x = p_x p, r_z = p_z p, r_ry = p_ry p,
                 r_moving = p_moving p, r_equipment = p_equipment p, r_stats = p_stats p\<rparr>"

fun existing_loop :: "ws \<Rightarrow> (ref \<Rightarrow> pdata) \<Rightarrow> (ws \<times> ref) list \<Rightarrow> roster_entry list" where
  "existing_loop w h [] = []"
| "existing_loop w h (e # rest) =
     (if fst e \<noteq> w then entry_of (h (snd e)) # existing_loop w h rest
      else existing_loop w h rest)"

text \<open>Reading a field of \<open>pData\<close>: \<open>TypeError\<close> on \<open>null\<close>.\<close>

definition deref :: "ref option \<Rightarrow> error + ref" where
  "deref p = (case p of None \<Rightarrow> Inl TypeError | Some r \<Rightarrow> Inr r)"

definition handle_join :: "int \<Rightarrow> jsstring \<Rightarrow> ws \<Rightarrow> json \<Rightarrow> server \<Rightarrow> error + server" where
  "handle_join now rnd w msg s =
     bind_err (join_name (fld msg ''name'')) (\<lambda>name.
       let r = nextRef s;
           p = new_pdata (genId rnd) name now;
           s1 = s\<lparr>heap := (heap s)(r := p), nextRef := Suc r,
                  players := AList.update w r (players s),
                  closures := (closures s)(w \<mapsto> \<lparr>joined = True, pData = Some r\<rparr>)\<rparr>;
           existing = existing_loop w (heap s1) (players s1);
           s2 = sendTo w (WelcomeMsg (p_id p) existing) s1
       in Inr (broadcast (JoinMsg (p_id p) (p_name p)) (Some w) s2))"

definition handle_move :: "builtins \<Rightarrow> ws \<Rightarrow> ref option \<Rightarrow> json \<Rightarrow> server \<Rightarrow> error + server" where
  "handle_move B w pd msg s =
     bind_err (deref pd) (\<lambda>r.
     bind_err (num_or B (fld msg ''x'') (Num 0)) (\<lambda>x.
     bind_err (num_or B (fld msg ''z'') (Num 0)) (\<lambda>z.
     bind_err (num_or B (fld msg ''ry'') (Num 0)) (\<lambda>ry.
       let p = (heap s r)\<lparr>p_x := x, p_z := z, p_ry := ry,
                          p_moving := truthy (fld msg ''moving'')\<rparr>;
           s1 = s\<lparr>heap := (heap s)(r := p)\<rparr>
       in Inr (broadcast (MoveMsg (p_id p) (p_x p) (p_z p) (p_ry p) (p_moving p)) (Some w) s1)))))"

definition handle_chat :: "ws \<Rightarrow> ref option \<Rightarrow> json \<Rightarrow> server \<Rightarrow> error + server" where
  "handle_chat w pd msg s =
     bind_err (chat_text (fld msg ''text'')) (\<lambda>text.
       if length text > 0
       then bind_err (deref pd) (\<lambda>r.
              Inr (broadcast (ChatMsg (p_id (heap s r)) (p_name (heap s r)) text) None s))
       else Inr s)"

definition handle_equip :: "ws \<Rightarrow> ref option \<Rightarrow> json \<Rightarrow> server \<Rightarrow> error + server" where
  "handle_equip w pd msg s =
     bind_err (deref pd) (\<lambda>r.
       let p = (heap s r)\<lparr>p_equipment := or_else (fld msg ''equipment'') (JObj [])\<rparr>;
           s1 = s\<lparr>heap := (heap s)(r := p)\<rparr>
       in Inr (broadcast (EquipMsg (p_id p) (p_equipment p)) (Some w) s1))"

definition handle_stats :: "builtins \<Rightarrow> ws \<Rightarrow> ref option \<Rightarrow> json \<Rightarrow> server \<Rightarrow> error + server" where
  "handle_stats B w pd msg s =
     bind_err (deref pd) (\<lambda>r.
     bind_err (num_or B (fld msg ''level'') (Num 1)) (\<lambda>lv.
     bind_err (num_or B (fld msg ''hp'') (Num 100)) (\<lambda>h.
     bind_err (num_or B (fld msg ''maxHp'') (Num 100)) (\<lambda>mh.
       let st = \<lparr>level = lv,
                 combatStyle = or_else (fld msg ''combatStyle'') (JStr (js ''nano'')),
                 hp = h, maxHp = mh,
                 area = or_else (fld msg ''area'') (JStr (js ''station-hub''))\<rparr>;
           p = (heap s r)\<lparr>p_stats := st\<rparr>;
           s1 = s\<lparr>heap := (heap s)(r := p)\<rparr>
       in Inr (broadcast (StatsMsg (p_id p) (p_stats p)) (Some w) s1)))))"

definition handle_attack :: "builtins \<Rightarrow> ws \<Rightarrow> ref option \<Rightarrow> json \<Rightarrow> server \<Rightarrow> error + server" where
  "handle_attack B w pd msg s =
     bind_err (deref pd) (\<lambda>r.
     bind_err (num_or B (fld msg ''damage'') (Num 0)) (\<lambda>dmg.
     bind_err (num_or B (fld msg ''x'') (Num 0)) (\<lambda>x.
     bind_err (num_or B (fld msg ''z'') (Num 0)) (\<lambda>z.
       Inr (broadcast (AttackMsg (p_id (heap s r)) (p_name (heap s r)) (fld msg ''enemyId'') dmg
                         (or_else (fld msg ''style'') (JStr (js ''nano''))) x z) (Some w) s)))))"

definition handle_enemyKill :: "ws \<Rightarrow> ref option \<Rightarrow> json \<Rightarrow> server \<Rightarrow> error + server" where
  "handle_enemyKill w pd msg s =
     bind_err (deref pd) (\<lambda>r.
       Inr (broadcast (EnemyKillMsg (p_id (heap s r)) (p_name (heap s r)) (fld msg ''enemyId''))
              (Some w) s))"

definition handle_groundDrop :: "builtins \<Rightarrow> ws \<Rightarrow> ref option \<Rightarrow> json \<Rightarrow> server \<Rightarrow> error + server" where
  "handle_groundDrop B w pd msg s =
     bind_err (deref pd) (\<lambda>r.
     bind_err (num_or B (fld msg ''x'') (Num 0)) (\<lambda>x.
     bind_err (num_or B (fld msg ''z'') (Num 0)) (\<lambda>z.
     bind_err (item_id (fld msg ''itemId'')) (\<lambda>item.
     bind_err (drop_quantity B (fld msg ''quantity'')) (\<lambda>q.
       Inr (broadcast (GroundDropMsg (p_id (heap s r)) (p_name (heap s r)) x z item q)
              (Some w) s))))))"

definition handle_pong :: "int \<Rightarrow> ref option \<Rightarrow> server \<Rightarrow> error + server" where
  "handle_pong now pd s =
     bind_err (deref pd) (\<lambda>r. Inr (s\<lparr>heap := (heap s)(r := (heap s r)\<lparr>p_lastPing := now\<rparr>)\<rparr>))"

text \<open>
  A frame is the raw text and what \<open>JSON.parse\<close> makes of it: nothing, or a value. An
  object is the list of its own properties, each name once.
\<close>

datatype frame = Malformed | Decoded json

text \<open>
  The message handler of connection \<open>w\<close>. \<open>now\<close> is what \<open>Date.now()\<close> returns during
  the call and \<open>rnd\<close> what \<open>Math.random().toString(36)\<close> returns. \<open>msg.type\<close> on \<open>null\<close>
  raises \<open>TypeError\<close>.
\<close>

definition on_message ::
  "builtins \<Rightarrow> int \<Rightarrow> jsstring \<Rightarrow> ws \<Rightarrow> frame \<Rightarrow> server \<Rightarrow> error + server" where
  "on_message B now rnd w fr s =
     (case closures s w of
        None \<Rightarrow> Inr s
      | Some c \<Rightarrow>
         (case fr of
            Malformed \<Rightarrow> Inr s
          | Decoded msg \<Rightarrow>
              if msg = JNull then Inl TypeError
              else if fld msg ''type'' = Some (JStr (js ''join'')) \<and> \<not> joined c
                then handle_join now rnd w msg s
              else if \<not> joined c then Inr s
              else if fld msg ''type'' = Some (JStr (js ''move''))
                then handle_move B w (pData c) msg s
              else if fld msg ''type'' = Some (JStr (js ''chat''))
                then handle_chat w (pData c) msg s
              else if fld msg ''type'' = Some (JStr (js ''equip''))
                then handle_equip w (pData c) msg s
              else if fld msg ''type'' = Some (JStr (js ''stats''))
                then handle_stats B w (pData c) msg s
              else if fld msg ''type'' = Some (JStr (js ''attack''))
                then handle_attack B w (pData c) msg s
              else if fld msg ''type'' = Some (JStr (js ''enemyKill''))
                then handle_enemyKill w (pData c) msg s
              else if fld msg ''type'' = Some (JStr (js ''groundDrop''))
                then handle_groundDrop B w (pData c) msg s
              else if fld msg ''type'' = Some (JStr (js ''pong''))
                then handle_pong now (pData c) s
              else Inr s))"

text \<open>The close handler: \<open>leave\<close> to everybody when \<open>pData\<close> is set, then the removal.\<close>

definition on_close :: "ws \<Rightarrow> server \<Rightarrow> server" where
  "on_close w s =
     (case closures s w of
        None \<Rightarrow> s
      | Some c \<Rightarrow>
          let s1 = (case pData c of
                      None \<Rightarrow> s
                    | Some r \<Rightarrow> broadcast (LeaveMsg (p_id (heap s r))) None s)
          in s1\<lparr>players := AList.delete w (players s1)\<rparr>)"

definition on_error :: "ws \<Rightarrow> server \<Rightarrow> server" where
  "on_error w s =
     (case closures s w of
        None \<Rightarrow> s
      | Some c \<Rightarrow> s\<lparr>players := AList.delete w (players s)\<rparr>)"

text \<open>
  The heartbeat. Deleting the entry under the iterator does not disturb the iteration
  of a \<open>Map\<close>, so the loop runs over the entries present at its start.
\<close>

fun heartbeat_loop :: "int \<Rightarrow> (ws \<times> ref) list \<Rightarrow> server \<Rightarrow> server" where
  "heartbeat_loop now [] s = s"
| "heartbeat_loop now (e # rest) s =
     heartbeat_loop now rest
       (if now - p_lastPing (heap s (snd e)) > HEARTBEAT_TIMEOUT
        then (let s1 = ws_terminate (fst e) s
              in s1\<lparr>players := AList.delete (fst e) (players s1)\<rparr>)
        else sendTo (fst e) PingMsg s)"

definition heartbeat :: "int \<Rightarrow> server \<Rightarrow> server" where
  "heartbeat now s = heartbeat_loop now (players s) s"

section \<open>Events\<close>

text \<open>
  What the event loop hands to the server, one event at a time. The transport creates a
  handle once, open, and passes it to the connection callback. A socket emits \<open>message\<close>,
  \<open>error\<close> and \<open>close\<close> from then on until the transport reports it closed: it marks the
  socket closed, emits \<open>close\<close>, once, and nothing after it. \<open>live\<close> says that the socket
  exists and that its \<open>close\<close> is still to come; an event of a socket that is not live does
  not occur, and \<open>step\<close> passes it over.
\<close>

datatype event =
    Connection ws
  | Message ws frame int jsstring
  | Close ws
  | Error ws
  | Tick int

definition live :: "server \<Rightarrow> ws \<Rightarrow> bool" where
  "live s w = (readyState s w \<noteq> None \<and> readyState s w \<noteq> Some CLOSED)"

fun step :: "builtins \<Rightarrow> event \<Rightarrow> server \<Rightarrow> error + server" where
  "step B (Connection w) s =
     (if readyState s w \<noteq> None then Inr s
      else Inr (on_connection w (s\<lparr>readyState := (readyState s)(w \<mapsto> OPEN)\<rparr>)))"
| "step B (Message w fr now rnd) s = (if live s w then on_message B now rnd w fr s else Inr s)"
| "step B (Close w) s =
     (if live s w then Inr (on_close w (s\<lparr>readyState := (readyState s)(w \<mapsto> CLOSED)\<rparr>))
      else Inr s)"
| "step B (Error w) s = (if live s w then Inr (on_error w s) else Inr s)"
| "step B (Tick now) s = Inr (heartbeat now s)"

fun run :: "builtins \<Rightarrow> event list \<Rightarrow> server \<Rightarrow> error + server" where
  "run B [] s = Inr s"
| "run B (ev # evs) s = bind_err (step B ev s) (run B evs)"

section \<open>Reachable states\<close>

text \<open>
  What every state reached from \<open>init\<close> satisfies: a handle is registered once, under the
  session record that its closure holds, and its socket has not been reported closed;
  handlers belong to sockets the transport has created; \<open>joined\<close> is set with \<open>pData\<close>;
  session records are allocated, one per connection.
\<close>

definition wf :: "server \<Rightarrow> bool" where
  "wf s = (distinct (map fst (players s))
         \<and> (\<forall>e \<in> set (players s). closures s (fst e) = Some \<lparr>joined = True, pData = Some (snd e)\<rparr>)
         \<and> (\<forall>e \<in> set (players s). readyState s (fst e) \<noteq> Some CLOSED)
         \<and> (\<forall>w c. closures s w = Some c \<longrightarrow> readyState s w \<noteq> None)
         \<and> (\<forall>w c. closures s w = Some c \<longrightarrow> (joined c \<longleftrightarrow> pData c \<noteq> None))
         \<and> (\<forall>w c r. closures s w = Some c \<longrightarrow> pData c = Some r \<longrightarrow> r < nextRef s)
         \<and> (\<forall>w c w' c' r. closures s w = Some c \<longrightarrow> closures s w' = Some c' \<longrightarrow>
                pData c = Some r \<longrightarrow> pData c' = Some r \<longrightarrow> w = w'))"

text \<open>The handles a broadcast reaches: the registered ones that are open, but \<open>exclude\<close>.\<close>

definition targets :: "ws option \<Rightarrow> server \<Rightarrow> ws list" where
  "targets exclude s =
     map fst (filter (\<lambda>e. Some (fst e) \<noteq> exclude \<and> readyState s (fst e) = Some OPEN) (players s))"

section \<open>Notions used in the proofs\<close>

text \<open>The state right after the assignments of the join handler, before it sends.\<close>

definition joined_state :: "int \<Rightarrow> jsstring \<Rightarrow> jsstring \<Rightarrow> ws \<Rightarrow> server \<Rightarrow> server" where
  "joined_state now rnd name w s =
     s\<lparr>heap := (heap s)(nextRef s := new_pdata (genId rnd) name now), nextRef := Suc (nextRef s),
       players := AList.update w (nextRef s) (players s),
       closures := (closures s)(w \<mapsto> \<lparr>joined = True, pData = Some (nextRef s)\<rparr>)\<rparr>"

text \<open>
  What a handler other than \<open>join\<close> leaves alone: the registry, the closures, the
  allocation pointer and the sockets.
\<close>

definition same_registry :: "server \<Rightarrow> server \<Rightarrow> bool" where
  "same_registry s s' = (players s' = players s \<and> closures s' = closures s \<and> nextRef s' = nextRef s
                         \<and> readyState s' = readyState s)"

text \<open>The test of the heartbeat, and one iteration of its loop.\<close>

definition timed_out :: "int \<Rightarrow> server \<Rightarrow> (ws \<times> ref) \<Rightarrow> bool" where
  "timed_out now s e = (now - p_lastPing (heap s (snd e)) > HEARTBEAT_TIMEOUT)"

definition beat :: "int \<Rightarrow> (ws \<times> ref) \<Rightarrow> server \<Rightarrow> server" where
  "beat now e s =
     (if timed_out now s e
      then (let s1 = ws_terminate (fst e) s in s1\<lparr>players := AList.delete (fst e) (players s1)\<rparr>)
      else sendTo (fst e) PingMsg s)"

text \<open>
  A relay: one payload of type \<open>ty\<close> is broadcast without the sender, and nothing but
  session records changes.
\<close>

definition relayed :: "string \<Rightarrow> ws \<Rightarrow> server \<Rightarrow> server \<Rightarrow> bool" where
  "relayed ty w s s' = (\<exists>d h. ptype d = ty \<and> s' = broadcast d (Some w) (s\<lparr>heap := h\<rparr>))"

section \<open>Identifiers drawn afresh\<close>

text \<open>
  \<open>accepts_join\<close>: the message is a \<open>join\<close> that the handler of \<open>w\<close> will accept.
  \<open>draws_fresh\<close>: along the run, every accepted join draws an identifier that no
  registered session carries at that moment.
\<close>

definition accepts_join :: "server \<Rightarrow> ws \<Rightarrow> frame \<Rightarrow> bool" where
  "accepts_join s w fr =
     (case closures s w of
        None \<Rightarrow> False
      | Some c \<Rightarrow> \<not> joined c \<and>
          (case fr of Malformed \<Rightarrow> False
                    | Decoded msg \<Rightarrow> fld msg ''type'' = Some (JStr (js ''join''))))"

fun draw_fresh :: "event \<Rightarrow> server \<Rightarrow> bool" where
  "draw_fresh (Message w fr now rnd) s = (accepts_join s w fr \<longrightarrow> genId rnd \<notin> set (registry_ids s))"
| "draw_fresh ev s = True"

fun draws_fresh :: "builtins \<Rightarrow> event list \<Rightarrow> server \<Rightarrow> bool" where
  "draws_fresh B [] s = True"
| "draws_fresh B (ev # evs) s =
     (draw_fresh ev s \<and> (case step B ev s of Inl e \<Rightarrow> True | Inr s' \<Rightarrow> draws_fresh B evs s'))"

section \<open>Pongs and leaves\<close>

text \<open>
  \<open>is_pong w\<close>: the event is a \<open>pong\<close> of connection \<open>w\<close>. \<open>refreshes s w msg\<close>: in \<open>s\<close> the
  message is delivered to the handler of \<open>w\<close> and is one of the two that set \<open>lastPing\<close> of
  its session: the \<open>join\<close> that creates the session, or a \<open>pong\<close> once it has joined.
  \<open>leaves\<close>: the \<open>leave\<close> messages among the payloads a session has received.
\<close>

fun is_pong :: "ws \<Rightarrow> event \<Rightarrow> bool" where
  "is_pong w (Message v (Decoded msg) now rnd) = (v = w \<and> fld msg ''type'' = Some (JStr (js ''pong'')))"
| "is_pong w ev = False"

definition refreshes :: "server \<Rightarrow> ws \<Rightarrow> json \<Rightarrow> bool" where
  "refreshes s w msg =
     (live s w \<and>
      (case closures s w of
         None \<Rightarrow> False
       | Some c \<Rightarrow> if joined c then fld msg ''type'' = Some (JStr (js ''pong''))
                  else fld msg ''type'' = Some (JStr (js ''join''))))"

definition leaves :: "payload list \<Rightarrow> payload list" where
  "leaves ds = filter (\<lambda>d. ptype d = ''leave'') ds"

section \<open>The sessions as the spec describes them\<close>

text \<open>
  The spec gives a session an identifier, a name, a position with a \<open>moving\<close> flag, an
  equipment and a stats record (its section 3), and says what a message does to the session
  of its sender (the table of section 4.2): \<open>join\<close> creates it, at the origin, with an
  empty equipment and the default stats; \<open>move\<close> sets the position and the flag; \<open>equip\<close>
  replaces the equipment; \<open>stats\<close> replaces the stats; no other message touches it. Fields
  are coerced, never rejected. \<open>spec_join\<close> and \<open>spec_update\<close> are these effects on the
  view of a session that a roster shows. \<open>spec_views\<close> keeps one view for each connection
  along the events of a run: it takes from the state of the server only whether the message
  reaches a handler and whether the connection has joined, never a session record.
\<close>

type_synonym views = "ws \<Rightarrow> roster_entry option"

definition spec_join :: "jsstring \<Rightarrow> jsstring \<Rightarrow> roster_entry" where
  "spec_join i n = \<lparr>r_id = i, r_name = n, r_x = Num 0, r_z = Num 0, r_ry = Num 0,
                     r_moving = False, r_equipment = JObj [], r_stats = default_stats\<rparr>"

definition spec_update :: "builtins \<Rightarrow> json \<Rightarrow> roster_entry \<Rightarrow> roster_entry" where
  "spec_update B msg e =
     (if fld msg ''type'' = Some (JStr (js ''move'')) then
        (case num_or B (fld msg ''x'') (Num 0) of Inl err \<Rightarrow> e | Inr x \<Rightarrow>
         case num_or B (fld msg ''z'') (Num 0) of Inl err \<Rightarrow> e | Inr z \<Rightarrow>
         case num_or B (fld msg ''ry'') (Num 0) of Inl err \<Rightarrow> e | Inr ry \<Rightarrow>
           e\<lparr>r_x := x, r_z := z, r_ry := ry, r_moving := truthy (fld msg ''moving'')\<rparr>)
      else if fld msg ''type'' = Some (JStr (js ''equip'')) then
        e\<lparr>r_equipment := or_else (fld msg ''equipment'') (JObj [])\<rparr>
      else if fld msg ''type'' = Some (JStr (js ''stats'')) then
        (case num_or B (fld msg ''level'') (Num 1) of Inl err \<Rightarrow> e | Inr lv \<Rightarrow>
         case num_or B (fld msg ''hp'') (Num 100) of Inl err \<Rightarrow> e | Inr h \<Rightarrow>
         case num_or B (fld msg ''maxHp'') (Num 100) of Inl err \<Rightarrow> e | Inr mh \<Rightarrow>
           e\<lparr>r_stats := \<lparr>level = lv,
                          combatStyle = or_else (fld msg ''combatStyle'') (JStr (js ''nano'')),
                          hp = h, maxHp = mh,
                          area = or_else (fld msg ''area'') (JStr (js ''station-hub''))\<rparr>\<rparr>)
      else e)"

fun spec_views :: "builtins \<Rightarrow> event \<Rightarrow> server \<Rightarrow> views \<Rightarrow> views" where
  "spec_views B (Message w (Decoded msg) now rnd) s V =
     (if \<not> live s w then V
      else if accepts_join s w (Decoded msg) then
        (case join_name (fld msg ''name'') of
           Inl err \<Rightarrow> V
         | Inr n \<Rightarrow> V(w \<mapsto> spec_join (genId rnd) n))
      else V(w := map_option (spec_update B msg) (V w)))"
| "spec_views B ev s V = V"

fun views_run :: "builtins \<Rightarrow> event list \<Rightarrow> server \<Rightarrow> views \<Rightarrow> views" where
  "views_run B [] s V = V"
| "views_run B (ev # evs) s V =
     (case step B ev s of Inl err \<Rightarrow> V | Inr s' \<Rightarrow> views_run B evs s' (spec_views B ev s V))"

definition views_after :: "builtins \<Rightarrow> event list \<Rightarrow> views" where
  "views_after B evs = views_run B evs init (\<lambda>w. None)"

section \<open>Concrete runs\<close>

text \<open>
  Built-ins for runs in which no string, array or object is coerced to a number: any
  function serves there.
\<close>

definition B0 :: builtins where
  "B0 = \<lparr>StringToNumber = (\<lambda>s. NaN), ObjectToNumber = (\<lambda>j. Inr NaN)\<rparr>"

definition join_frame :: "string \<Rightarrow> frame" where
  "join_frame n = Decoded (JObj [(js ''type'', JStr (js ''join'')), (js ''name'', JStr (js n))])"

definition bare_join :: json where
  "bare_join = JObj [(js ''type'', JStr (js ''join''))]"

definition chat_msg :: "string \<Rightarrow> json" where
  "chat_msg t = JObj [(js ''type'', JStr (js ''chat'')), (js ''text'', JStr (js t))]"

definition move_msg :: "real \<Rightarrow> real \<Rightarrow> real \<Rightarrow> bool \<Rightarrow> json" where
  "move_msg x z ry m =
     JObj [(js ''type'', JStr (js ''move'')), (js ''x'', JNum (Num x)), (js ''z'', JNum (Num z)),
           (js ''ry'', JNum (Num ry)), (js ''moving'', JBool m)]"

definition equip_msg :: "json \<Rightarrow> json" where
  "equip_msg e = JObj [(js ''type'', JStr (js ''equip'')), (js ''equipment'', e)]"

definition stats_msg :: "real \<Rightarrow> real \<Rightarrow> json" where
  "stats_msg lv h =
     JObj [(js ''type'', JStr (js ''stats'')), (js ''level'', JNum (Num lv)), (js ''hp'', JNum (Num h))]"

definition drop_msg :: "json option \<Rightarrow> json" where
  "drop_msg q = JObj ([(js ''type'', JStr (js ''groundDrop'')), (js ''itemId'', JStr (js ''ore''))]
                      @ (case q of None \<Rightarrow> [] | Some v \<Rightarrow> [(js ''quantity'', v)]))"

text \<open>The state a run from \<open>init\<close> ends in (\<open>init\<close> itself if a handler raised).\<close>

definition after :: "builtins \<Rightarrow> event list \<Rightarrow> server" where
  "after B evs = (case run B evs init of Inl e \<Rightarrow> init | Inr s \<Rightarrow> s)"

definition size_after :: "builtins \<Rightarrow> event list \<Rightarrow> nat option" where
  "size_after B evs = (case run B evs init of Inl e \<Rightarrow> None | Inr s \<Rightarrow> Some (length (players s)))"

text \<open>
  \<open>crowd n\<close>: \<open>n\<close> clients connect, then each of them joins. The random numbers differ in
  their first digits, so the identifiers differ.
\<close>

definition crowd :: "nat \<Rightarrow> event list" where
  "crowd n = map Connection [0..<n]
           @ map (\<lambda>w. Message w (join_frame ''Player'') 0 (js ''0.'' @ replicate 8 (of_nat (97 + w)))) [0..<n]"

text \<open>
  \<open>lobby\<close>: Alice and Bob connect and join. \<open>twins\<close>: the same, with two random numbers
  that agree on their first eight digits. \<open>moved\<close>: Alice joins, moves, takes a laser and
  reports level 7 with 80 hit points, all before Bob joins.
\<close>

definition lobby :: "event list" where
  "lobby = [Connection 0, Connection 1,
            Message 0 (join_frame ''Alice'') 1000 (js ''0.4fzyo82mvyr''),
            Message 1 (join_frame ''Bob'') 2000 (js ''0.k3j9x0q1zzb'')]"

definition twins :: "event list" where
  "twins = [Connection 0, Connection 1,
            Message 0 (join_frame ''Alice'') 1000 (js ''0.4fzyo82mvyr''),
            Message 1 (join_frame ''Bob'') 2000 (js ''0.4fzyo82mabc'')]"

definition moved :: "event list" where
  "moved = [Connection 0, Connection 1,
            Message 0 (join_frame ''Alice'') 1000 (js ''0.4fzyo82mvyr''),
            Message 0 (Decoded (move_msg 5 0 0 True)) 1500 [],
            Message 0 (Decoded (equip_msg (JObj [(js ''weapon'', JStr (js ''laser''))]))) 1600 [],
            Message 0 (Decoded (stats_msg 7 80)) 1700 []]"

definition alice :: pdata where
  "alice = new_pdata (js ''4fzyo82m'') (js ''Alice'') 1000"

section \<open>Auxiliary facts\<close>

lemma bind_err_simps [simp]:
  "bind_err (Inl e) f = Inl e"
  "bind_err (Inr v) f = f v"
  by (simp_all add: bind_err_def)

lemma js_inj [simp]: "js a = js b \<longleftrightarrow> a = b"
proof -
  have "inj (\<lambda>c::char. (of_nat (of_char c) :: 16 word))"
  proof (rule injI)
    fix x y :: char
    assume h: "(of_nat (of_char x) :: 16 word) = of_nat (of_char y)"
    have b: "(of_char c :: nat) < 2 ^ 16" for c
    proof -
      have "(of_char c :: nat) mod 256 < 256" by (rule mod_less_divisor) simp
      then have "(of_char c :: nat) < 256" by (simp only: of_char_mod_256)
      then show ?thesis by (rule less_trans) simp
    qed
    from h have "unat (of_nat (of_char x) :: 16 word) = unat (of_nat (of_char y) :: 16 word)"
      by simp
    then have "(of_char x :: nat) = of_char y"
      using b[of x] b[of y] by (simp add: unat_of_nat take_bit_nat_eq_self)
    then show "x = y" by simp
  qed
  then show ?thesis by (simp add: js_def inj_map_eq_map)
qed

lemma js_Nil [simp]: "js [] = []" "js (c # cs) \<noteq> []" "[] \<noteq> js (c # cs)"
  by (simp_all add: js_def)

lemma strip_idem: "strip cs (strip cs s) = strip cs s"
  by (simp add: strip_def)

lemma strip_length: "length (strip cs s) \<le> length s"
  by (simp add: strip_def)

lemma slice0: "slice_list 0 n xs = take n xs"
  by (simp add: slice_list_def)

lemma take_strip_take: "take n (strip cs (take n s)) = strip cs (take n s)"
proof -
  have "length (strip cs (take n s)) \<le> n"
    using strip_length[of cs "take n s"] by simp
  then show ?thesis by simp
qed

section \<open>Broadcasts\<close>

text \<open>
  The loop of \<open>broadcast\<close> as one append to \<open>sent\<close>, and what each handle receives
  from it when the registry holds every handle once.
\<close>

lemma broadcast_loop_eq:
  "broadcast_loop d ex es s =
     s\<lparr>sent := sent s @ map (\<lambda>e. (fst e, d)) (filter (\<lambda>e. Some (fst e) \<noteq> ex \<and> readyState s (fst e) = Some OPEN) es)\<rparr>"
  by (induction es arbitrary: s) (simp_all add: ws_send_def)

lemma broadcast_eq:
  "broadcast d ex s = s\<lparr>sent := sent s @ map (\<lambda>w. (w, d)) (targets ex s)\<rparr>"
  by (simp add: broadcast_def broadcast_loop_eq targets_def comp_def)

lemma broadcast_fields [simp]:
  "players (broadcast d ex s) = players s"
  "heap (broadcast d ex s) = heap s"
  "nextRef (broadcast d ex s) = nextRef s"
  "closures (broadcast d ex s) = closures s"
  "readyState (broadcast d ex s) = readyState s"
  by (simp_all add: broadcast_eq)

lemma sendTo_fields [simp]:
  "players (sendTo w d s) = players s"
  "heap (sendTo w d s) = heap s"
  "nextRef (sendTo w d s) = nextRef s"
  "closures (sendTo w d s) = closures s"
  "readyState (sendTo w d s) = readyState s"
  by (simp_all add: sendTo_def ws_send_def)

lemma wf_init: "wf init"
  by (simp add: wf_def init_def)

lemma received_append: "sent s' = sent s @ ms \<Longrightarrow> received s' w = received s w @ map snd (filter (\<lambda>m. fst m = w) ms)"
  by (simp add: received_def)

lemma filter_key_distinct:
  "distinct (map fst es) \<Longrightarrow> filter (\<lambda>w'. w' = w) (map fst (filter P es)) = (if \<exists>e \<in> set es. fst e = w \<and> P e then [w] else [])"
proof (induction es)
  case Nil then show ?case by simp
next
  case (Cons e es)
  then show ?case by (auto simp: filter_empty_conv image_iff)
qed

lemma received_broadcast:
  assumes "distinct (map fst (players s))"
  shows "received (broadcast d ex s) w =
         received s w @ (if registered s w \<and> Some w \<noteq> ex \<and> readyState s w = Some OPEN then [d] else [])"
proof -
  have "map snd (filter (\<lambda>m. fst m = w) (map (\<lambda>v. (v, d)) (targets ex s)))
        = map (\<lambda>v. d) (filter (\<lambda>v. v = w) (targets ex s))"
    by (simp add: filter_map comp_def)
  also have "\<dots> = (if registered s w \<and> Some w \<noteq> ex \<and> readyState s w = Some OPEN then [d] else [])"
    using filter_key_distinct[OF assms, of w "\<lambda>e. Some (fst e) \<noteq> ex \<and> readyState s (fst e) = Some OPEN"]
    by (auto simp: targets_def registered_def)
  finally show ?thesis
    by (simp add: received_append[where ms="map (\<lambda>v. (v, d)) (targets ex s)"] broadcast_eq)
qed

section \<open>The invariant of reachable states\<close>

text \<open>
  \<open>wf\<close> holds initially and every event preserves it.
\<close>

lemma wfI:
  assumes "distinct (map fst (players s))"
    and "\<And>w r. (w, r) \<in> set (players s) \<Longrightarrow> closures s w = Some \<lparr>joined = True, pData = Some r\<rparr>"
    and "\<And>w c. closures s w = Some c \<Longrightarrow> readyState s w \<noteq> None"
    and "\<And>w c. closures s w = Some c \<Longrightarrow> joined c \<longleftrightarrow> pData c \<noteq> None"
    and "\<And>w c r. closures s w = Some c \<Longrightarrow> pData c = Some r \<Longrightarrow> r < nextRef s"
    and "\<And>w c w' c' r. closures s w = Some c \<Longrightarrow> closures s w' = Some c' \<Longrightarrow>
                pData c = Some r \<Longrightarrow> pData c' = Some r \<Longrightarrow> w = w'"
    and "\<And>w r. (w, r) \<in> set (players s) \<Longrightarrow> readyState s w \<noteq> Some CLOSED"
  shows "wf s"
  unfolding wf_def using assms by (simp add: split_paired_all Ball_def)

lemma wf_distinct: "wf s \<Longrightarrow> distinct (map fst (players s))"
  by (simp add: wf_def)

lemma wf_closure: "wf s \<Longrightarrow> (w, r) \<in> set (players s) \<Longrightarrow> closures s w = Some \<lparr>joined = True, pData = Some r\<rparr>"
  unfolding wf_def by (metis fst_conv snd_conv)

lemma wf_unclosed: "wf s \<Longrightarrow> (w, r) \<in> set (players s) \<Longrightarrow> readyState s w \<noteq> Some CLOSED"
  unfolding wf_def by (metis fst_conv)

lemma wf_socket: "wf s \<Longrightarrow> closures s w = Some c \<Longrightarrow> readyState s w \<noteq> None"
  unfolding wf_def by blast

lemma wf_joined: "wf s \<Longrightarrow> closures s w = Some c \<Longrightarrow> joined c \<longleftrightarrow> pData c \<noteq> None"
  unfolding wf_def by blast

lemma wf_alloc: "wf s \<Longrightarrow> closures s w = Some c \<Longrightarrow> pData c = Some r \<Longrightarrow> r < nextRef s"
  unfolding wf_def by blast

lemma wf_own: "wf s \<Longrightarrow> closures s w = Some c \<Longrightarrow> closures s w' = Some c' \<Longrightarrow>
                pData c = Some r \<Longrightarrow> pData c' = Some r \<Longrightarrow> w = w'"
  unfolding wf_def by blast

lemma wf_sent [simp]: "wf (s\<lparr>sent := x\<rparr>) = wf s"
  by (simp add: wf_def)

lemma wf_heap [simp]: "wf (s\<lparr>heap := x\<rparr>) = wf s"
  by (simp add: wf_def)

lemma wf_readyState: "wf s \<Longrightarrow> x \<noteq> CLOSED \<Longrightarrow> wf (s\<lparr>readyState := (readyState s)(w \<mapsto> x)\<rparr>)"
  by (simp add: wf_def)

lemma wf_readyState_unregistered:
  "wf s \<Longrightarrow> w \<notin> fst ` set (players s) \<Longrightarrow> wf (s\<lparr>readyState := (readyState s)(w \<mapsto> x)\<rparr>)"
  by (auto simp: wf_def)

lemma wf_broadcast [simp]: "wf (broadcast d ex s) = wf s"
  by (simp add: broadcast_eq)

lemma wf_sendTo [simp]: "wf (sendTo w d s) = wf s"
  by (simp add: sendTo_def ws_send_def)

lemma wf_ws_close: "wf s \<Longrightarrow> wf (ws_close w s)"
  by (simp add: ws_close_def wf_readyState split: option.splits ready_state.splits)

lemma wf_ws_terminate: "wf s \<Longrightarrow> wf (ws_terminate w s)"
  by (simp add: ws_terminate_def wf_readyState split: option.splits ready_state.splits)

lemma set_delete: "set (AList.delete w al) = {e \<in> set al. fst e \<noteq> w}"
  by (auto simp: AList.delete_eq)

lemma wf_delete:
  assumes "wf s"
  shows "wf (s\<lparr>players := AList.delete w (players s)\<rparr>)"
proof (rule wfI)
  show "distinct (map fst (players (s\<lparr>players := AList.delete w (players s)\<rparr>)))"
    using wf_distinct[OF assms] by (simp add: distinct_delete)
next
  fix v r assume "(v, r) \<in> set (players (s\<lparr>players := AList.delete w (players s)\<rparr>))"
  then have "(v, r) \<in> set (players s)" by (simp add: set_delete)
  then show "closures (s\<lparr>players := AList.delete w (players s)\<rparr>) v = Some \<lparr>joined = True, pData = Some r\<rparr>"
    using wf_closure[OF assms] by simp
next
  fix v r assume "(v, r) \<in> set (players (s\<lparr>players := AList.delete w (players s)\<rparr>))"
  then have "(v, r) \<in> set (players s)" by (simp add: set_delete)
  then show "readyState (s\<lparr>players := AList.delete w (players s)\<rparr>) v \<noteq> Some CLOSED"
    using wf_unclosed[OF assms] by simp
next
  fix v c v' c' r
  assume "closures (s\<lparr>players := AList.delete w (players s)\<rparr>) v = Some c"
    "closures (s\<lparr>players := AList.delete w (players s)\<rparr>) v' = Some c'"
    "pData c = Some r" "pData c' = Some r"
  then show "v = v'" using wf_own[OF assms, of v c v' c' r] by simp
qed (use assms in \<open>simp_all add: wf_socket wf_joined wf_alloc\<close>)

lemma wf_not_registered:
  assumes "wf s" "closures s w = Some c" "\<not> joined c"
  shows "w \<notin> fst ` set (players s)"
proof
  assume "w \<in> fst ` set (players s)"
  then obtain r where "(w, r) \<in> set (players s)" by auto
  from wf_closure[OF assms(1) this] assms(2,3) show False by auto
qed

lemma wf_fresh_socket:
  assumes "wf s" "readyState s w = None"
  shows "closures s w = None" and "w \<notin> fst ` set (players s)"
proof -
  show c: "closures s w = None"
  proof (cases "closures s w")
    case (Some c)
    from wf_socket[OF assms(1) this] assms(2) show ?thesis by simp
  qed simp
  show "w \<notin> fst ` set (players s)"
  proof
    assume "w \<in> fst ` set (players s)"
    then obtain r where "(w, r) \<in> set (players s)" by auto
    from wf_closure[OF assms(1) this] c show False by simp
  qed
qed

lemma wf_new_closure:
  assumes "wf s" "closures s w = None" "readyState s w \<noteq> None"
  shows "wf (s\<lparr>closures := (closures s)(w \<mapsto> \<lparr>joined = False, pData = None\<rparr>)\<rparr>)"
proof (rule wfI)
  let ?s = "s\<lparr>closures := (closures s)(w \<mapsto> \<lparr>joined = False, pData = None\<rparr>)\<rparr>"
  show "distinct (map fst (players ?s))" using wf_distinct[OF assms(1)] by simp
  show "closures ?s v = Some \<lparr>joined = True, pData = Some r\<rparr>" if "(v, r) \<in> set (players ?s)" for v r
  proof -
    from that have "closures s v = Some \<lparr>joined = True, pData = Some r\<rparr>"
      using wf_closure[OF assms(1)] by simp
    with assms(2) show ?thesis by (cases "v = w") simp_all
  qed
  show "readyState ?s v \<noteq> None" if "closures ?s v = Some c" for v c
    using that assms(3) wf_socket[OF assms(1), of v c] by (cases "v = w") simp_all
  show "joined c \<longleftrightarrow> pData c \<noteq> None" if "closures ?s v = Some c" for v c
    using that wf_joined[OF assms(1), of v c] by (cases "v = w") auto
  show "r < nextRef ?s" if "closures ?s v = Some c" "pData c = Some r" for v c r
    using that wf_alloc[OF assms(1), of v c r] by (cases "v = w") auto
  show "v = v'" if "closures ?s v = Some c" "closures ?s v' = Some c'" "pData c = Some r" "pData c' = Some r"
    for v c v' c' r
    using that wf_own[OF assms(1), of v c v' c' r] by (cases "v = w"; cases "v' = w") auto
  show "readyState ?s v \<noteq> Some CLOSED" if "(v, r) \<in> set (players ?s)" for v r
    using that wf_unclosed[OF assms(1), of v r] by simp
qed

lemma wf_on_connection:
  assumes "wf s" "readyState s w = None"
  shows "wf (on_connection w (s\<lparr>readyState := (readyState s)(w \<mapsto> OPEN)\<rparr>))"
proof -
  let ?s = "s\<lparr>readyState := (readyState s)(w \<mapsto> OPEN)\<rparr>"
  have w1: "wf ?s" using assms(1) by (rule wf_readyState) simp
  have "closures ?s w = None" using wf_fresh_socket(1)[OF assms] by simp
  then have "wf (?s\<lparr>closures := (closures ?s)(w \<mapsto> \<lparr>joined = False, pData = None\<rparr>)\<rparr>)"
    using w1 by (intro wf_new_closure) simp_all
  then show ?thesis using w1 by (simp add: on_connection_def wf_ws_close)
qed

lemma update_fresh: "w \<notin> fst ` set al \<Longrightarrow> AList.update w r al = al @ [(w, r)]"
  by (induction al) auto

lemma handle_join_eq:
  "handle_join now rnd w msg s = Inr s' \<longleftrightarrow>
   (\<exists>name. join_name (fld msg ''name'') = Inr name \<and>
      s' = broadcast (JoinMsg (genId rnd) name) (Some w)
             (sendTo w (WelcomeMsg (genId rnd)
                (existing_loop w (heap (joined_state now rnd name w s)) (players (joined_state now rnd name w s))))
                (joined_state now rnd name w s)))"
  by (cases "join_name (fld msg ''name'')")
     (auto simp: handle_join_def Let_def new_pdata_def joined_state_def)

lemma wf_joined_state:
  assumes "wf s" "closures s w = Some c" "\<not> joined c" "readyState s w \<noteq> Some CLOSED"
  shows "wf (joined_state now rnd name w s)"
proof (rule wfI)
  let ?s = "joined_state now rnd name w s"
  have nr: "w \<notin> fst ` set (players s)" using assms(1-3) by (rule wf_not_registered)
  have pl: "players ?s = players s @ [(w, nextRef s)]"
    by (simp add: joined_state_def update_fresh[OF nr])
  have cl: "closures ?s = (closures s)(w \<mapsto> \<lparr>joined = True, pData = Some (nextRef s)\<rparr>)"
    by (simp add: joined_state_def)
  have nx: "nextRef ?s = Suc (nextRef s)" and rs: "readyState ?s = readyState s"
    by (simp_all add: joined_state_def)
  show "distinct (map fst (players ?s))"
    using wf_distinct[OF assms(1)] nr by (simp add: pl)
  show "readyState ?s v \<noteq> Some CLOSED" if "(v, r) \<in> set (players ?s)" for v r
    using that wf_unclosed[OF assms(1), of v r] assms(4) by (auto simp: pl rs)
  show "closures ?s v = Some \<lparr>joined = True, pData = Some r\<rparr>" if "(v, r) \<in> set (players ?s)" for v r
  proof (cases "v = w")
    case True
    with that nr have "r = nextRef s" by (auto simp: pl image_iff)
    with True show ?thesis by (simp add: cl)
  next
    case False
    with that have "(v, r) \<in> set (players s)" by (simp add: pl)
    from wf_closure[OF assms(1) this] False show ?thesis by (simp add: cl)
  qed
  show "readyState ?s v \<noteq> None" if "closures ?s v = Some c'" for v c'
    using that wf_socket[OF assms(1), of v] assms(2) by (cases "v = w") (simp_all add: cl rs)
  show "joined c' \<longleftrightarrow> pData c' \<noteq> None" if "closures ?s v = Some c'" for v c'
    using that wf_joined[OF assms(1), of v c'] by (cases "v = w") (auto simp: cl)
  show "r < nextRef ?s" if "closures ?s v = Some c'" "pData c' = Some r" for v c' r
    using that wf_alloc[OF assms(1), of v c' r] by (cases "v = w") (auto simp: cl nx)
  show "v = v'" if "closures ?s v = Some c1" "closures ?s v' = Some c2" "pData c1 = Some r" "pData c2 = Some r"
    for v c1 v' c2 r
  proof (cases "v = w"; cases "v' = w")
    assume "v \<noteq> w" "v' \<noteq> w"
    with that wf_own[OF assms(1), of v c1 v' c2 r] show ?thesis by (simp add: cl)
  next
    assume a: "v = w" "v' \<noteq> w"
    with that have "r = nextRef s" "closures s v' = Some c2" by (auto simp: cl)
    with wf_alloc[OF assms(1), of v' c2 r] that show ?thesis by simp
  next
    assume a: "v \<noteq> w" "v' = w"
    with that have "r = nextRef s" "closures s v = Some c1" by (auto simp: cl)
    with wf_alloc[OF assms(1), of v c1 r] that show ?thesis by simp
  qed simp
qed

lemma wf_handle_join:
  assumes "wf s" "closures s w = Some c" "\<not> joined c" "readyState s w \<noteq> Some CLOSED"
    "handle_join now rnd w msg s = Inr s'"
  shows "wf s'"
  using assms(5) wf_joined_state[OF assms(1-4)] by (auto simp: handle_join_eq)

lemma wf_same_registry: "same_registry s s' \<Longrightarrow> wf s \<Longrightarrow> wf s'"
  by (simp add: same_registry_def wf_def)

lemma bind_err_Inr: "bind_err m f = Inr y \<longleftrightarrow> (\<exists>v. m = Inr v \<and> f v = Inr y)"
  by (cases m) simp_all

lemma handlers_same_registry:
  "handle_move B w pd msg s = Inr s' \<Longrightarrow> same_registry s s'"
  "handle_chat w pd msg s = Inr s' \<Longrightarrow> same_registry s s'"
  "handle_equip w pd msg s = Inr s' \<Longrightarrow> same_registry s s'"
  "handle_stats B w pd msg s = Inr s' \<Longrightarrow> same_registry s s'"
  "handle_attack B w pd msg s = Inr s' \<Longrightarrow> same_registry s s'"
  "handle_enemyKill w pd msg s = Inr s' \<Longrightarrow> same_registry s s'"
  "handle_groundDrop B w pd msg s = Inr s' \<Longrightarrow> same_registry s s'"
  "handle_pong now pd s = Inr s' \<Longrightarrow> same_registry s s'"
  by (auto simp: handle_move_def handle_chat_def handle_equip_def handle_stats_def handle_attack_def
        handle_enemyKill_def handle_groundDrop_def handle_pong_def bind_err_Inr Let_def
        same_registry_def split: if_splits)

lemma wf_on_message:
  assumes "wf s" "on_message B now rnd w fr s = Inr s'" "readyState s w \<noteq> Some CLOSED"
  shows "wf s'"
proof (cases "closures s w")
  case None
  with assms show ?thesis by (simp add: on_message_def)
next
  case (Some c)
  show ?thesis
  proof (cases fr)
    case Malformed
    with assms Some show ?thesis by (simp add: on_message_def)
  next
    case (Decoded msg)
    show ?thesis
    proof (cases "fld msg ''type'' = Some (JStr (js ''join'')) \<and> \<not> joined c")
      case True
      with assms(2) Some Decoded have "handle_join now rnd w msg s = Inr s'"
        by (simp add: on_message_def split: if_splits)
      with True show ?thesis using wf_handle_join[OF assms(1) Some _ assms(3)] by blast
    next
      case False
      with assms(2) Some Decoded have "s' = s \<or> same_registry s s'"
        by (auto simp: on_message_def split: if_splits dest: handlers_same_registry)
      with assms(1) show ?thesis using wf_same_registry by blast
    qed
  qed
qed

lemma wf_on_close: "wf s \<Longrightarrow> wf (on_close w s)"
proof -
  assume a: "wf s"
  have "wf (s1\<lparr>players := AList.delete w (players s1)\<rparr>)" if "wf s1" for s1
    using that by (rule wf_delete)
  then show ?thesis using a
    by (simp add: on_close_def Let_def split: option.splits)
qed

lemma wf_closed:
  assumes "wf s"
  shows "wf (on_close w (s\<lparr>readyState := (readyState s)(w \<mapsto> CLOSED)\<rparr>))"
proof (cases "closures s w")
  case None
  have "w \<notin> fst ` set (players s)"
  proof
    assume "w \<in> fst ` set (players s)"
    then obtain r where "(w, r) \<in> set (players s)" by auto
    from wf_closure[OF assms this] None show False by simp
  qed
  from wf_readyState_unregistered[OF assms this] None show ?thesis
    by (simp add: on_close_def)
next
  case (Some c)
  let ?d = "s\<lparr>players := AList.delete w (players s)\<rparr>"
  have "wf ?d" using assms by (rule wf_delete)
  moreover have "w \<notin> fst ` set (players ?d)" by (auto simp: set_delete)
  ultimately have "wf (?d\<lparr>readyState := (readyState ?d)(w \<mapsto> CLOSED)\<rparr>)"
    by (rule wf_readyState_unregistered)
  moreover have "same_registry (?d\<lparr>readyState := (readyState ?d)(w \<mapsto> CLOSED)\<rparr>)
                   (on_close w (s\<lparr>readyState := (readyState s)(w \<mapsto> CLOSED)\<rparr>))"
    using Some by (simp add: same_registry_def on_close_def Let_def split: option.splits)
  ultimately show ?thesis by (rule wf_same_registry[rotated])
qed

lemma wf_on_error: "wf s \<Longrightarrow> wf (on_error w s)"
  by (simp add: on_error_def wf_delete split: option.splits)

lemma wf_heartbeat_loop: "wf s \<Longrightarrow> wf (heartbeat_loop now es s)"
proof (induction es arbitrary: s)
  case Nil then show ?case by simp
next
  case (Cons e es)
  have "wf (let s1 = ws_terminate (fst e) s in s1\<lparr>players := AList.delete (fst e) (players s1)\<rparr>)"
    using Cons.prems by (simp add: Let_def wf_delete wf_ws_terminate)
  then show ?case using Cons by simp
qed

lemma wf_step: "wf s \<Longrightarrow> step B ev s = Inr s' \<Longrightarrow> wf s'"
proof (cases ev)
  case (Connection w)
  assume "wf s" "step B ev s = Inr s'"
  with Connection show ?thesis by (auto simp: wf_on_connection split: if_splits)
next
  case (Message w fr now rnd)
  assume "wf s" "step B ev s = Inr s'"
  with Message show ?thesis by (auto simp: live_def intro: wf_on_message split: if_splits)
next
  case (Close w)
  assume "wf s" "step B ev s = Inr s'"
  with Close show ?thesis by (auto simp: wf_closed split: if_splits)
next
  case (Error w)
  assume "wf s" "step B ev s = Inr s'"
  with Error show ?thesis by (auto simp: wf_on_error split: if_splits)
next
  case (Tick now)
  assume "wf s" "step B ev s = Inr s'"
  with Tick show ?thesis by (auto simp: heartbeat_def wf_heartbeat_loop)
qed

lemma wf_run_from: "wf s \<Longrightarrow> run B evs s = Inr s' \<Longrightarrow> wf s'"
proof (induction evs arbitrary: s)
  case Nil then show ?case by simp
next
  case (Cons ev evs)
  from Cons.prems(2) obtain s1 where "step B ev s = Inr s1" "run B evs s1 = Inr s'"
    by (auto simp: bind_err_Inr)
  with Cons.IH[of s1] wf_step[OF Cons.prems(1)] show ?case by blast
qed

lemma wf_run: "run B evs init = Inr s \<Longrightarrow> wf s"
  using wf_run_from[OF wf_init] .

section \<open>The heartbeat loop\<close>

text \<open>
  The registry, the sockets and the sends after the loop, in terms of the state before it.
\<close>

lemma ws_terminate_fields [simp]:
  "players (ws_terminate w s) = players s"
  "heap (ws_terminate w s) = heap s"
  "nextRef (ws_terminate w s) = nextRef s"
  "closures (ws_terminate w s) = closures s"
  "sent (ws_terminate w s) = sent s"
  by (simp_all add: ws_terminate_def split: option.splits ready_state.splits)

lemma ws_terminate_readyState:
  "readyState (ws_terminate w s) v =
     (if v = w \<and> readyState s w = Some OPEN then Some CLOSING else readyState s v)"
  by (simp add: ws_terminate_def split: option.splits ready_state.splits)

lemma heartbeat_loop_Cons: "heartbeat_loop now (e # es) s = heartbeat_loop now es (beat now e s)"
  by (simp add: beat_def timed_out_def)

lemma beat_fields [simp]:
  "heap (beat now e s) = heap s"
  "closures (beat now e s) = closures s"
  "nextRef (beat now e s) = nextRef s"
  by (simp_all add: beat_def Let_def)

lemma beat_timed_out [simp]: "timed_out now (beat now e s) e' = timed_out now s e'"
  by (simp add: timed_out_def)

lemma beat_players:
  "players (beat now e s) = (if timed_out now s e then AList.delete (fst e) (players s) else players s)"
  by (simp add: beat_def Let_def)

lemma beat_readyState:
  "readyState (beat now e s) v =
     (if v = fst e \<and> timed_out now s e \<and> readyState s v = Some OPEN then Some CLOSING else readyState s v)"
  by (auto simp: beat_def Let_def ws_terminate_readyState)

lemma beat_sent:
  "sent (beat now e s) = sent s @ (if \<not> timed_out now s e \<and> readyState s (fst e) = Some OPEN then [(fst e, PingMsg)] else [])"
  by (simp add: beat_def Let_def sendTo_def ws_send_def)

lemma heartbeat_loop_fields [simp]:
  "heap (heartbeat_loop now es s) = heap s"
  "closures (heartbeat_loop now es s) = closures s"
  "nextRef (heartbeat_loop now es s) = nextRef s"
  by (induction es arbitrary: s) (simp_all add: heartbeat_loop_Cons del: heartbeat_loop.simps(2))

lemma heartbeat_loop_players:
  "players (heartbeat_loop now es s) =
     filter (\<lambda>e'. \<not> (\<exists>e \<in> set es. timed_out now s e \<and> fst e = fst e')) (players s)"
proof (induction es arbitrary: s)
  case Nil then show ?case by simp
next
  case (Cons e es)
  show ?case
    unfolding heartbeat_loop_Cons Cons.IH
    by (auto simp: beat_players AList.delete_eq intro!: filter_cong)
qed

lemma heartbeat_loop_readyState:
  "readyState (heartbeat_loop now es s) v =
     (if (\<exists>e \<in> set es. timed_out now s e \<and> fst e = v) \<and> readyState s v = Some OPEN
      then Some CLOSING else readyState s v)"
proof (induction es arbitrary: s)
  case Nil then show ?case by simp
next
  case (Cons e es)
  show ?case
    unfolding heartbeat_loop_Cons Cons.IH
    by (auto simp: beat_readyState)
qed

lemma heartbeat_loop_sent:
  "distinct (map fst es) \<Longrightarrow>
   sent (heartbeat_loop now es s) =
     sent s @ map (\<lambda>e. (fst e, PingMsg))
                (filter (\<lambda>e. \<not> timed_out now s e \<and> readyState s (fst e) = Some OPEN) es)"
proof (induction es arbitrary: s)
  case Nil then show ?case by simp
next
  case (Cons e es)
  have rs: "readyState (beat now e s) (fst e') = readyState s (fst e')" if "e' \<in> set es" for e'
    using that Cons.prems by (auto simp: beat_readyState image_iff)
  have "filter (\<lambda>e'. \<not> timed_out now (beat now e s) e' \<and> readyState (beat now e s) (fst e') = Some OPEN) es
        = filter (\<lambda>e'. \<not> timed_out now s e' \<and> readyState s (fst e') = Some OPEN) es"
    by (rule filter_cong) (simp_all add: rs)
  then show ?case
    unfolding heartbeat_loop_Cons using Cons.IH[of "beat now e s"] Cons.prems
    by (simp add: beat_sent)
qed

lemma registered_iff: "registered s w \<longleftrightarrow> (\<exists>r. (w, r) \<in> set (players s))"
  by (force simp: registered_def image_iff)

lemma received_pings:
  assumes "distinct (map fst es)"
  shows "map snd (filter (\<lambda>m. fst m = v) (map (\<lambda>e. (fst e, PingMsg)) (filter P es)))
         = (if \<exists>e \<in> set es. fst e = v \<and> P e then [PingMsg] else [])"
proof -
  have "map snd (filter (\<lambda>m. fst m = v) (map (\<lambda>e. (fst e, PingMsg)) (filter P es)))
        = map (\<lambda>w. PingMsg) (filter (\<lambda>w'. w' = v) (map fst (filter P es)))"
    by (simp add: filter_map comp_def)
  then show ?thesis using filter_key_distinct[OF assms, of v P] by simp
qed

section \<open>The close handler\<close>

text \<open>
  The close handler on a connection that has joined.
\<close>

lemma on_close_fields [simp]:
  "heap (on_close w s) = heap s"
  "closures (on_close w s) = closures s"
  "nextRef (on_close w s) = nextRef s"
  "readyState (on_close w s) = readyState s"
  by (simp_all add: on_close_def Let_def split: option.splits)

lemma on_close_joined:
  "closures s w = Some c \<Longrightarrow> pData c = Some r \<Longrightarrow>
   on_close w s = (broadcast (LeaveMsg (p_id (heap s r))) None s)\<lparr>players := AList.delete w (players s)\<rparr>"
  by (simp add: on_close_def Let_def)

lemma targets_sent [simp]: "targets ex (s\<lparr>sent := x\<rparr>) = targets ex s"
  by (simp add: targets_def)

lemma targets_closed:
  "targets None (s\<lparr>players := AList.delete w (players s), readyState := (readyState s)(w \<mapsto> CLOSED)\<rparr>)
   = targets None (s\<lparr>readyState := (readyState s)(w \<mapsto> CLOSED)\<rparr>)"
  by (auto simp: targets_def AList.delete_eq intro!: arg_cong[where f="map fst"] filter_cong)

lemma step_Close:
  "live s w \<Longrightarrow>
   step B (Close w) s = Inr (on_close w (s\<lparr>readyState := (readyState s)(w \<mapsto> CLOSED)\<rparr>))"
  by simp

section \<open>Identifiers in the registry\<close>

text \<open>
  No handler rewrites an identifier; a join appends one; removals keep the others.
\<close>

lemma registry_ids_delete:
  "distinct (registry_ids s) \<Longrightarrow> distinct (registry_ids (s\<lparr>players := AList.delete w (players s)\<rparr>))"
  by (simp add: registry_ids_def AList.delete_eq distinct_map_filter)

lemma registry_ids_cong:
  "players s' = players s \<Longrightarrow> (\<And>r. p_id (heap s' r) = p_id (heap s r)) \<Longrightarrow> registry_ids s' = registry_ids s"
  by (simp add: registry_ids_def)

lemma handlers_keep_ids:
  "handle_move B w pd msg s = Inr s' \<Longrightarrow> p_id (heap s' r) = p_id (heap s r)"
  "handle_chat w pd msg s = Inr s' \<Longrightarrow> p_id (heap s' r) = p_id (heap s r)"
  "handle_equip w pd msg s = Inr s' \<Longrightarrow> p_id (heap s' r) = p_id (heap s r)"
  "handle_stats B w pd msg s = Inr s' \<Longrightarrow> p_id (heap s' r) = p_id (heap s r)"
  "handle_attack B w pd msg s = Inr s' \<Longrightarrow> p_id (heap s' r) = p_id (heap s r)"
  "handle_enemyKill w pd msg s = Inr s' \<Longrightarrow> p_id (heap s' r) = p_id (heap s r)"
  "handle_groundDrop B w pd msg s = Inr s' \<Longrightarrow> p_id (heap s' r) = p_id (heap s r)"
  "handle_pong now pd s = Inr s' \<Longrightarrow> p_id (heap s' r) = p_id (heap s r)"
  by (auto simp: handle_move_def handle_chat_def handle_equip_def handle_stats_def handle_attack_def
        handle_enemyKill_def handle_groundDrop_def handle_pong_def bind_err_Inr Let_def
        split: if_splits)

lemma wf_entry_alloc: "wf s \<Longrightarrow> e \<in> set (players s) \<Longrightarrow> snd e < nextRef s"
  using wf_closure[of s "fst e" "snd e"] wf_alloc[of s "fst e" _ "snd e"] by simp

lemma registry_ids_joined_state:
  assumes "wf s" "closures s w = Some c" "\<not> joined c"
  shows "registry_ids (joined_state now rnd name w s) = registry_ids s @ [genId rnd]"
proof -
  have nr: "w \<notin> fst ` set (players s)" using assms by (rule wf_not_registered)
  have ne: "snd e \<noteq> nextRef s" if "e \<in> set (players s)" for e
    using wf_entry_alloc[OF assms(1) that] by simp
  have "map (\<lambda>e. p_id (((heap s)(nextRef s := new_pdata (genId rnd) name now)) (snd e))) (players s)
        = map (\<lambda>e. p_id (heap s (snd e))) (players s)"
    by (rule map_cong) (simp_all add: ne)
  then show ?thesis
    by (simp add: registry_ids_def joined_state_def update_fresh[OF nr] new_pdata_def)
qed

lemma ids_on_message:
  assumes "wf s" "distinct (registry_ids s)" "on_message B now rnd w fr s = Inr s'"
    and "accepts_join s w fr \<longrightarrow> genId rnd \<notin> set (registry_ids s)"
  shows "distinct (registry_ids s')"
proof (cases "closures s w")
  case None
  with assms show ?thesis by (simp add: on_message_def)
next
  case (Some c)
  show ?thesis
  proof (cases fr)
    case Malformed
    with assms Some show ?thesis by (simp add: on_message_def)
  next
    case (Decoded msg)
    show ?thesis
    proof (cases "fld msg ''type'' = Some (JStr (js ''join'')) \<and> \<not> joined c")
      case True
      with assms(3) Some Decoded have "handle_join now rnd w msg s = Inr s'"
        by (simp add: on_message_def split: if_splits)
      then obtain name where "registry_ids s' = registry_ids (joined_state now rnd name w s)"
        by (auto simp: handle_join_eq registry_ids_def)
      moreover have "genId rnd \<notin> set (registry_ids s)"
        using assms(4) True Some Decoded by (simp add: accepts_join_def)
      ultimately show ?thesis
        using registry_ids_joined_state[OF assms(1) Some, of now rnd] True assms(2) by simp
    next
      case False
      with assms(3) Some Decoded
      have "s' = s \<or> (same_registry s s' \<and> (\<forall>r. p_id (heap s' r) = p_id (heap s r)))"
        by (auto simp: on_message_def split: if_splits dest: handlers_same_registry handlers_keep_ids)
      then have "registry_ids s' = registry_ids s"
        by (auto simp: same_registry_def intro: registry_ids_cong)
      with assms(2) show ?thesis by simp
    qed
  qed
qed

lemma registry_ids_heartbeat:
  "distinct (registry_ids s) \<Longrightarrow> distinct (registry_ids (heartbeat now s))"
  by (simp add: registry_ids_def heartbeat_def heartbeat_loop_players distinct_map_filter)

lemma registry_ids_on_close:
  "distinct (registry_ids s) \<Longrightarrow> distinct (registry_ids (on_close w s))"
proof -
  assume a: "distinct (registry_ids s)"
  have "registry_ids (on_close w s) = registry_ids s \<or>
        registry_ids (on_close w s) = registry_ids (s\<lparr>players := AList.delete w (players s)\<rparr>)"
    by (auto simp: on_close_def Let_def registry_ids_def split: option.splits)
  with a registry_ids_delete[OF a, of w] show ?thesis by auto
qed

lemma registry_ids_on_error:
  "distinct (registry_ids s) \<Longrightarrow> distinct (registry_ids (on_error w s))"
  by (auto simp: on_error_def registry_ids_delete split: option.splits)

lemma registry_ids_on_connection [simp]:
  "registry_ids (on_connection w s) = registry_ids s"
  by (simp add: on_connection_def registry_ids_def ws_close_def split: option.splits ready_state.splits)

lemma registry_ids_readyState [simp]: "registry_ids (s\<lparr>readyState := x\<rparr>) = registry_ids s"
  by (simp add: registry_ids_def)

lemma ids_step:
  assumes "wf s" "distinct (registry_ids s)" "step B ev s = Inr s'" "draw_fresh ev s"
  shows "distinct (registry_ids s')"
proof (cases ev)
  case (Connection w)
  with assms show ?thesis by (auto split: if_splits)
next
  case (Message w fr now rnd)
  with assms show ?thesis using ids_on_message[of s B now rnd w fr s'] by (simp split: if_splits)
next
  case (Close w)
  with assms show ?thesis
    using registry_ids_on_close[of "s\<lparr>readyState := (readyState s)(w \<mapsto> CLOSED)\<rparr>" w]
    by (auto split: if_splits)
next
  case (Error w)
  with assms show ?thesis by (auto simp: registry_ids_on_error split: if_splits)
next
  case (Tick now)
  with assms show ?thesis by (auto simp: registry_ids_heartbeat)
qed

lemma ids_run_from:
  "wf s \<Longrightarrow> distinct (registry_ids s) \<Longrightarrow> run B evs s = Inr s' \<Longrightarrow> draws_fresh B evs s
   \<Longrightarrow> distinct (registry_ids s')"
proof (induction evs arbitrary: s)
  case Nil then show ?case by simp
next
  case (Cons ev evs)
  from Cons.prems(3) obtain s1 where s1: "step B ev s = Inr s1" "run B evs s1 = Inr s'"
    by (auto simp: bind_err_Inr)
  have "wf s1" using wf_step[OF Cons.prems(1) s1(1)] .
  moreover have "distinct (registry_ids s1)"
    using ids_step[OF Cons.prems(1,2) s1(1)] Cons.prems(4) by simp
  moreover have "draws_fresh B evs s1" using Cons.prems(4) s1(1) by simp
  ultimately show ?case using Cons.IH s1(2) by blast
qed

section \<open>Coercions\<close>

text \<open>
  The default name and the bounds of the quantity.
\<close>

lemma fld_type_not_null: "fld msg f = Some v \<Longrightarrow> msg \<noteq> JNull"
  by (auto simp: fld_def)

lemma join_name_falsy: "\<not> truthy v \<Longrightarrow> join_name v = Inr (js ''Player'')"
  by (cases v) (simp_all add: join_name_def or_else_def sanitize_name_def slice0 strip_def js_def)

lemma num_or_not_NaN: "num_or B v d = Inr n \<Longrightarrow> d \<noteq> NaN \<Longrightarrow> n \<noteq> NaN"
  by (auto simp: num_or_def bind_err_Inr truthy_num_def split: if_splits)

lemma js_le_refl_Num [simp]: "js_le (Num a) (Num a)"
  by simp

lemma Math_min_le: "n \<noteq> NaN \<Longrightarrow> js_le (Math_min n (Num 1000)) (Num 1000)"
  by (cases n) (simp_all add: Math_min_def)

lemma drop_quantity_le: "drop_quantity B v = Inr q \<Longrightarrow> js_le q (Num 1000)"
  by (auto simp: drop_quantity_def bind_err_Inr dest!: num_or_not_NaN intro: Math_min_le)

lemma drop_quantity_Num:
  "drop_quantity B (Some (JNum (Num a))) = Inr (Num (if a = 0 then 1 else if a \<le> 1000 then a else 1000))"
  by (simp add: drop_quantity_def num_or_def truthy_num_def Math_min_def)

lemma groundDrop_sent:
  assumes reach: "run B evs init = Inr s"
    and cl: "closures s w = Some c" and j: "joined c"
    and ty: "fld msg ''type'' = Some (JStr (js ''groundDrop''))"
    and ok: "on_message B now rnd w (Decoded msg) s = Inr s'"
  shows "\<exists>r x z item q. pData c = Some r
          \<and> num_or B (fld msg ''x'') (Num 0) = Inr x \<and> num_or B (fld msg ''z'') (Num 0) = Inr z
          \<and> item_id (fld msg ''itemId'') = Inr item
          \<and> drop_quantity B (fld msg ''quantity'') = Inr q
          \<and> s' = broadcast (GroundDropMsg (p_id (heap s r)) (p_name (heap s r)) x z item q) (Some w) s
          \<and> (\<forall>v. received s' v = received s v @
                (if registered s v \<and> v \<noteq> w \<and> readyState s v = Some OPEN
                 then [GroundDropMsg (p_id (heap s r)) (p_name (heap s r)) x z item q] else []))"
proof -
  have dist: "distinct (map fst (players s))" using wf_distinct[OF wf_run[OF reach]] .
  have "handle_groundDrop B w (pData c) msg s = Inr s'"
    using ok cl j ty fld_type_not_null[OF ty] by (simp add: on_message_def)
  then obtain r x z item q where f: "pData c = Some r"
    "num_or B (fld msg ''x'') (Num 0) = Inr x" "num_or B (fld msg ''z'') (Num 0) = Inr z"
    "item_id (fld msg ''itemId'') = Inr item" "drop_quantity B (fld msg ''quantity'') = Inr q"
    "s' = broadcast (GroundDropMsg (p_id (heap s r)) (p_name (heap s r)) x z item q) (Some w) s"
    by (auto simp: handle_groundDrop_def bind_err_Inr deref_def split: option.splits)
  have "\<forall>v. received s' v = received s v @
                (if registered s v \<and> v \<noteq> w \<and> readyState s v = Some OPEN
                 then [GroundDropMsg (p_id (heap s r)) (p_name (heap s r)) x z item q] else [])"
    by (auto simp: f(6) received_broadcast[OF dist])
  with f show ?thesis by blast
qed

section \<open>What the handlers send\<close>

text \<open>
  The payloads each handle receives from a relay and from a join.
\<close>

lemma received_heap [simp]: "received (s\<lparr>heap := h\<rparr>) v = received s v"
  by (simp add: received_def)

lemma registered_heap [simp]: "registered (s\<lparr>heap := h\<rparr>) v = registered s v"
  by (simp add: registered_def)

lemma received_relay:
  assumes "distinct (map fst (players s))"
  shows "received (broadcast d ex (s\<lparr>heap := h\<rparr>)) v =
         received s v @ (if registered s v \<and> Some v \<noteq> ex \<and> readyState s v = Some OPEN then [d] else [])"
  using received_broadcast[of "s\<lparr>heap := h\<rparr>" d ex v] assms by simp

lemma relayedI: "ptype d = ty \<Longrightarrow> relayed ty w s (broadcast d (Some w) (s\<lparr>heap := h\<rparr>))"
  unfolding relayed_def by blast

lemma relayedI': "ptype d = ty \<Longrightarrow> relayed ty w s (broadcast d (Some w) s)"
  using relayedI[of d ty w s "heap s"] by simp

lemma relays:
  "handle_move B w pd msg s = Inr s' \<Longrightarrow> relayed ''move'' w s s'"
  "handle_equip w pd msg s = Inr s' \<Longrightarrow> relayed ''equip'' w s s'"
  "handle_stats B w pd msg s = Inr s' \<Longrightarrow> relayed ''stats'' w s s'"
  "handle_attack B w pd msg s = Inr s' \<Longrightarrow> relayed ''attack'' w s s'"
  "handle_enemyKill w pd msg s = Inr s' \<Longrightarrow> relayed ''enemyKill'' w s s'"
  "handle_groundDrop B w pd msg s = Inr s' \<Longrightarrow> relayed ''groundDrop'' w s s'"
  by (auto simp: handle_move_def handle_equip_def handle_stats_def handle_attack_def
        handle_enemyKill_def handle_groundDrop_def bind_err_Inr Let_def
        intro!: relayedI relayedI')

lemma received_relayed:
  assumes "relayed ty w s s'" "distinct (map fst (players s))"
  shows "received s' w = received s w
       \<and> (\<exists>d. ptype d = ty \<and>
            (\<forall>v. v \<noteq> w \<longrightarrow> received s' v =
               received s v @ (if registered s v \<and> readyState s v = Some OPEN then [d] else [])))"
proof -
  from assms(1) obtain d h where d: "ptype d = ty" and s': "s' = broadcast d (Some w) (s\<lparr>heap := h\<rparr>)"
    unfolding relayed_def by blast
  have "received s' w = received s w"
    by (simp add: s' received_relay[OF assms(2)])
  moreover have "\<forall>v. v \<noteq> w \<longrightarrow> received s' v =
               received s v @ (if registered s v \<and> readyState s v = Some OPEN then [d] else [])"
    by (simp add: s' received_relay[OF assms(2)])
  ultimately show ?thesis using d by blast
qed

lemma received_sendTo:
  "received (sendTo w d s) v = received s v @ (if v = w \<and> readyState s w = Some OPEN then [d] else [])"
  by (simp add: sendTo_def ws_send_def received_def)

lemma joined_state_fields [simp]:
  "readyState (joined_state now rnd name w s) = readyState s"
  "sent (joined_state now rnd name w s) = sent s"
  "nextRef (joined_state now rnd name w s) = Suc (nextRef s)"
  "heap (joined_state now rnd name w s) = (heap s)(nextRef s := new_pdata (genId rnd) name now)"
  "closures (joined_state now rnd name w s) = (closures s)(w \<mapsto> \<lparr>joined = True, pData = Some (nextRef s)\<rparr>)"
  by (simp_all add: joined_state_def)

lemma joined_state_players:
  "w \<notin> fst ` set (players s) \<Longrightarrow> players (joined_state now rnd name w s) = players s @ [(w, nextRef s)]"
  by (simp add: joined_state_def update_fresh)

lemma existing_loop_eq:
  "existing_loop w h es = map (\<lambda>e. entry_of (h (snd e))) (filter (\<lambda>e. fst e \<noteq> w) es)"
  by (induction es) simp_all

lemma existing_joined_state:
  assumes "wf s" "closures s w = Some c" "\<not> joined c"
  shows "existing_loop w (heap (joined_state now rnd name w s)) (players (joined_state now rnd name w s))
         = map (\<lambda>e. entry_of (heap s (snd e))) (players s)"
proof -
  have nr: "w \<notin> fst ` set (players s)" using assms by (rule wf_not_registered)
  have f: "filter (\<lambda>e. fst e \<noteq> w) (players s) = players s"
    using nr by (auto simp: filter_id_conv)
  have "map (\<lambda>e. entry_of (((heap s)(nextRef s := new_pdata (genId rnd) name now)) (snd e))) (players s)
        = map (\<lambda>e. entry_of (heap s (snd e))) (players s)"
  proof (rule map_cong)
    fix e assume "e \<in> set (players s)"
    from wf_entry_alloc[OF assms(1) this]
    show "entry_of (((heap s)(nextRef s := new_pdata (genId rnd) name now)) (snd e)) = entry_of (heap s (snd e))"
      by simp
  qed simp
  then show ?thesis
    by (simp add: existing_loop_eq joined_state_players[OF nr] f)
qed

text \<open>What an accepted join does, seen from every handle.\<close>

lemma join_received:
  assumes wfs: "wf s" and cl: "closures s w = Some c" and nj: "\<not> joined c"
    and ok: "handle_join now rnd w msg s = Inr s'"
  shows "\<exists>name. join_name (fld msg ''name'') = Inr name
          \<and> players s' = players s @ [(w, nextRef s)]
          \<and> received s' w = received s w @
               (if readyState s w = Some OPEN
                then [WelcomeMsg (genId rnd) (map (\<lambda>e. entry_of (heap s (snd e))) (players s))] else [])
          \<and> (\<forall>v. v \<noteq> w \<longrightarrow> received s' v = received s v @
               (if registered s v \<and> readyState s v = Some OPEN then [JoinMsg (genId rnd) name] else []))"
proof -
  from ok obtain name where nm: "join_name (fld msg ''name'') = Inr name"
    and s': "s' = broadcast (JoinMsg (genId rnd) name) (Some w)
             (sendTo w (WelcomeMsg (genId rnd)
                (existing_loop w (heap (joined_state now rnd name w s)) (players (joined_state now rnd name w s))))
                (joined_state now rnd name w s))"
    unfolding handle_join_eq by blast
  let ?j = "joined_state now rnd name w s"
  let ?wl = "WelcomeMsg (genId rnd) (map (\<lambda>e. entry_of (heap s (snd e))) (players s))"
  have nr: "w \<notin> fst ` set (players s)" using wfs cl nj by (rule wf_not_registered)
  have pl: "players ?j = players s @ [(w, nextRef s)]" using nr by (rule joined_state_players)
  have s'2: "s' = broadcast (JoinMsg (genId rnd) name) (Some w) (sendTo w ?wl ?j)"
    using s' existing_joined_state[OF wfs cl nj, of now rnd name] by simp
  have dj: "distinct (map fst (players (sendTo w ?wl ?j)))"
    using wf_distinct[OF wfs] nr by (simp add: pl)
  have rj: "received ?j v = received s v" for v by (simp add: received_def)
  have regj: "registered (sendTo w ?wl ?j) v \<longleftrightarrow> registered s v \<or> v = w" for v
    by (auto simp: registered_def pl)
  have a: "players s' = players s @ [(w, nextRef s)]" by (simp add: s'2 pl)
  have b: "received s' w = received s w @ (if readyState s w = Some OPEN then [?wl] else [])"
    by (simp add: s'2 received_broadcast[OF dj] received_sendTo rj)
  have c: "\<forall>v. v \<noteq> w \<longrightarrow> received s' v = received s v @
               (if registered s v \<and> readyState s v = Some OPEN then [JoinMsg (genId rnd) name] else [])"
    by (simp add: s'2 received_broadcast[OF dj] received_sendTo rj regj)
  from nm a b c show ?thesis by blast
qed

section \<open>Runs\<close>

text \<open>
  Runs that overfill the registry, and the states of the runs used as examples.
\<close>

lemma run_append: "run B (xs @ ys) s = bind_err (run B xs s) (run B ys)"
  by (induction xs arbitrary: s) (simp_all add: bind_err_def split: sum.splits)

lemma join_name_string: "\<exists>name. join_name (Some (JStr t)) = Inr name"
  by (simp add: join_name_def or_else_def)

lemma join_frame_grows:
  assumes "closures s w = Some c" "\<not> joined c" "w \<notin> fst ` set (players s)" "live s w"
  shows "\<exists>s'. step B (Message w (join_frame n) now rnd) s = Inr s'
            \<and> players s' = players s @ [(w, nextRef s)]
            \<and> (\<forall>v. v \<noteq> w \<longrightarrow> closures s' v = closures s v)
            \<and> readyState s' = readyState s"
proof -
  let ?msg = "JObj [(js ''type'', JStr (js ''join'')), (js ''name'', JStr (js n))]"
  obtain name where nm: "join_name (fld ?msg ''name'') = Inr name"
    using join_name_string[of "js n"] by (auto simp: fld_def)
  let ?j = "joined_state now rnd name w s"
  let ?s' = "broadcast (JoinMsg (genId rnd) name) (Some w)
               (sendTo w (WelcomeMsg (genId rnd) (existing_loop w (heap ?j) (players ?j))) ?j)"
  have "handle_join now rnd w ?msg s = Inr ?s'"
    unfolding handle_join_eq using nm by blast
  then have "step B (Message w (join_frame n) now rnd) s = Inr ?s'"
    using assms(1,2,4) by (simp add: on_message_def join_frame_def fld_def)
  moreover have "players ?s' = players s @ [(w, nextRef s)]"
    by (simp add: joined_state_players[OF assms(3)])
  moreover have "\<forall>v. v \<noteq> w \<longrightarrow> closures ?s' v = closures s v"
    by simp
  moreover have "readyState ?s' = readyState s"
    by simp
  ultimately show ?thesis by blast
qed

lemma joins_grow:
  assumes "distinct ws"
    and "\<forall>w \<in> set ws. closures s w = Some \<lparr>joined = False, pData = None\<rparr> \<and> w \<notin> fst ` set (players s)
                       \<and> live s w"
  shows "\<exists>s'. run B (map (\<lambda>w. Message w (join_frame n) now (rnd w)) ws) s = Inr s'
            \<and> length (players s') = length (players s) + length ws"
  using assms
proof (induction ws arbitrary: s)
  case Nil then show ?case by simp
next
  case (Cons w ws)
  have c: "closures s w = Some \<lparr>joined = False, pData = None\<rparr>" and nr: "w \<notin> fst ` set (players s)"
    and lv: "live s w"
    using Cons.prems(2) by simp_all
  from join_frame_grows[OF c _ nr lv, of B n now "rnd w"] obtain s1 where
    s1: "step B (Message w (join_frame n) now (rnd w)) s = Inr s1"
    and p1: "players s1 = players s @ [(w, nextRef s)]"
    and c1: "\<forall>v. v \<noteq> w \<longrightarrow> closures s1 v = closures s v"
    and r1: "readyState s1 = readyState s"
    by auto
  have "\<forall>v \<in> set ws. closures s1 v = Some \<lparr>joined = False, pData = None\<rparr> \<and> v \<notin> fst ` set (players s1)
                      \<and> live s1 v"
    using Cons.prems c1 p1 r1 by (auto simp: live_def)
  with Cons.IH[of s1] Cons.prems(1) obtain s' where
    "run B (map (\<lambda>w. Message w (join_frame n) now (rnd w)) ws) s1 = Inr s'"
    "length (players s') = length (players s1) + length ws"
    by auto
  then show ?case using s1 p1 by simp
qed

lemma connections_admitted:
  assumes "distinct ws" and "players s = []" and "\<forall>w \<in> set ws. readyState s w = None"
  shows "\<exists>s'. run B (map Connection ws) s = Inr s' \<and> players s' = []
            \<and> (\<forall>w \<in> set ws. closures s' w = Some \<lparr>joined = False, pData = None\<rparr>)
            \<and> (\<forall>w. w \<notin> set ws \<longrightarrow> closures s' w = closures s w)
            \<and> (\<forall>w \<in> set ws. readyState s' w = Some OPEN)
            \<and> (\<forall>w. w \<notin> set ws \<longrightarrow> readyState s' w = readyState s w)"
  using assms
proof (induction ws arbitrary: s)
  case Nil then show ?case by simp
next
  case (Cons w ws)
  let ?s1 = "on_connection w (s\<lparr>readyState := (readyState s)(w \<mapsto> OPEN)\<rparr>)"
  have st: "step B (Connection w) s = Inr ?s1" using Cons.prems(3) by simp
  have s1: "?s1 = s\<lparr>readyState := (readyState s)(w \<mapsto> OPEN),
                    closures := (closures s)(w \<mapsto> \<lparr>joined = False, pData = None\<rparr>)\<rparr>"
    using Cons.prems(2) by (simp add: on_connection_def MAX_PLAYERS_def)
  have "players ?s1 = []" "\<forall>v \<in> set ws. readyState ?s1 v = None"
    using Cons.prems by (auto simp: s1)
  with Cons.IH[of ?s1] Cons.prems(1) obtain s' where
    r: "run B (map Connection ws) ?s1 = Inr s'" "players s' = []"
    "\<forall>v \<in> set ws. closures s' v = Some \<lparr>joined = False, pData = None\<rparr>"
    "\<forall>v. v \<notin> set ws \<longrightarrow> closures s' v = closures ?s1 v"
    "\<forall>v \<in> set ws. readyState s' v = Some OPEN"
    "\<forall>v. v \<notin> set ws \<longrightarrow> readyState s' v = readyState ?s1 v"
    by auto
  have "closures s' w = Some \<lparr>joined = False, pData = None\<rparr>"
    using r(4) Cons.prems(1) by (simp add: s1)
  moreover have "\<forall>v. v \<notin> set (w # ws) \<longrightarrow> closures s' v = closures s v"
    using r(4) by (simp add: s1)
  moreover have "readyState s' w = Some OPEN"
    using r(6) Cons.prems(1) by (simp add: s1)
  moreover have "\<forall>v. v \<notin> set (w # ws) \<longrightarrow> readyState s' v = readyState s v"
    using r(6) by (simp add: s1)
  ultimately show ?case using st r by simp
qed

lemma crowd_registers_all: "size_after B (crowd n) = Some n"
proof -
  have i: "players init = []" "\<forall>w \<in> set [0..<n]. readyState init w = None"
    by (simp_all add: init_def)
  from connections_admitted[OF _ i, of B] obtain s1 where
    s1: "run B (map Connection [0..<n]) init = Inr s1" "players s1 = []"
    "\<forall>w \<in> set [0..<n]. closures s1 w = Some \<lparr>joined = False, pData = None\<rparr>"
    "\<forall>w \<in> set [0..<n]. readyState s1 w = Some OPEN"
    by auto
  have "\<forall>w \<in> set [0..<n]. closures s1 w = Some \<lparr>joined = False, pData = None\<rparr> \<and> w \<notin> fst ` set (players s1)
                          \<and> live s1 w"
    using s1 by (simp add: live_def)
  from joins_grow[OF _ this, of B "''Player''" 0 "\<lambda>w. js ''0.'' @ replicate 8 (of_nat (97 + w))"]
  obtain s' where "run B (map (\<lambda>w. Message w (join_frame ''Player'') 0 (js ''0.'' @ replicate 8 (of_nat (97 + w)))) [0..<n]) s1 = Inr s'"
    "length (players s') = length (players s1) + length [0..<n]"
    by auto
  then show ?thesis using s1 by (simp add: size_after_def crowd_def run_append)
qed

lemmas run_defs = init_def on_connection_def MAX_PLAYERS_def on_message_def join_frame_def fld_def live_def
  handle_join_def join_name_def or_else_def sanitize_name_def slice_list_def strip_def genId_def
  new_pdata_def sendTo_def ws_send_def broadcast_def Let_def js_def

lemma after_run: "run B evs init = Inr s \<Longrightarrow> after B evs = s"
  by (simp add: after_def)

lemma run_after: "\<exists>s. run B evs init = Inr s \<Longrightarrow> run B evs init = Inr (after B evs)"
  by (auto simp: after_def)

lemma run_snoc: "run B (evs @ [ev]) init = bind_err (run B evs init) (step B ev)"
  by (cases "run B evs init") (simp_all add: run_append bind_err_def split: sum.splits)

lemma lobby_ok: "run B0 lobby init = Inr (after B0 lobby)"
  by (rule run_after) (simp add: lobby_def run_defs)

lemma lobby_state:
  "players (after B0 lobby) = [(0, 0), (1, 1)]"
  "heap (after B0 lobby) 0 = alice"
  "closures (after B0 lobby) 0 = Some \<lparr>joined = True, pData = Some 0\<rparr>"
  "closures (after B0 lobby) 1 = Some \<lparr>joined = True, pData = Some 1\<rparr>"
  "readyState (after B0 lobby) 0 = Some OPEN"
  "readyState (after B0 lobby) 1 = Some OPEN"
  "received (after B0 lobby) 1 = [WelcomeMsg (js ''k3j9x0q1'') [entry_of alice]]"
  "received (after B0 lobby) 0 = [WelcomeMsg (js ''4fzyo82m'') [], JoinMsg (js ''k3j9x0q1'') (js ''Bob'')]"
  by (simp_all add: after_def lobby_def alice_def received_def entry_of_def run_defs)

lemma lobby_live: "live (after B0 lobby) 0" "live (after B0 lobby) (Suc 0)"
  using lobby_state(5,6) by (simp_all add: live_def)

lemmas handler_defs = handle_chat_def handle_move_def handle_groundDrop_def chat_text_def
  sanitize_chat_def item_id_def drop_quantity_def num_or_def truthy_num_def Math_min_def deref_def
  chat_msg_def move_msg_def drop_msg_def bare_join_def heartbeat_def on_close_def on_error_def
  ws_terminate_def HEARTBEAT_TIMEOUT_def B0_def

lemmas eval_defs = after_def lobby_def alice_def received_def registered_def entry_of_def
  run_defs handler_defs

lemma step_after:
  assumes "run B evs init = Inr (after B evs)" and "\<exists>s'. step B ev (after B evs) = Inr s'"
  shows "step B ev (after B evs) = Inr (after B (evs @ [ev]))"
    and "run B (evs @ [ev]) init = Inr (after B (evs @ [ev]))"
proof -
  from assms(2) obtain s' where s': "step B ev (after B evs) = Inr s'" by blast
  have r: "run B (evs @ [ev]) init = Inr s'"
    by (simp add: run_snoc assms(1) s')
  then have "after B (evs @ [ev]) = s'" by (rule after_run)
  with s' r show "step B ev (after B evs) = Inr (after B (evs @ [ev]))"
    and "run B (evs @ [ev]) init = Inr (after B (evs @ [ev]))" by simp_all
qed

section \<open>Further facts about the handlers\<close>

text \<open>
  A refused connection, and who writes a session record.
\<close>

lemma full_connection_refused:
  assumes "length (players s) \<ge> MAX_PLAYERS" and "readyState s w = None"
  shows "\<exists>s'. step B (Connection w) s = Inr s' \<and> players s' = players s \<and> closures s' = closures s
            \<and> received s' w = received s w @ [ErrorMsg (js ''Server full'')]
            \<and> readyState s' w = Some CLOSING"
  using assms by (simp add: on_connection_def sendTo_def ws_send_def ws_close_def received_def)

lemma handlers_write_own_record:
  "handle_move B w (Some r') msg s = Inr s' \<Longrightarrow> r \<noteq> r' \<Longrightarrow> heap s' r = heap s r"
  "handle_chat w (Some r') msg s = Inr s' \<Longrightarrow> r \<noteq> r' \<Longrightarrow> heap s' r = heap s r"
  "handle_equip w (Some r') msg s = Inr s' \<Longrightarrow> r \<noteq> r' \<Longrightarrow> heap s' r = heap s r"
  "handle_stats B w (Some r') msg s = Inr s' \<Longrightarrow> r \<noteq> r' \<Longrightarrow> heap s' r = heap s r"
  "handle_attack B w (Some r') msg s = Inr s' \<Longrightarrow> r \<noteq> r' \<Longrightarrow> heap s' r = heap s r"
  "handle_enemyKill w (Some r') msg s = Inr s' \<Longrightarrow> r \<noteq> r' \<Longrightarrow> heap s' r = heap s r"
  "handle_groundDrop B w (Some r') msg s = Inr s' \<Longrightarrow> r \<noteq> r' \<Longrightarrow> heap s' r = heap s r"
  "handle_pong now (Some r') s = Inr s' \<Longrightarrow> r \<noteq> r' \<Longrightarrow> heap s' r = heap s r"
  by (auto simp: handle_move_def handle_chat_def handle_equip_def handle_stats_def handle_attack_def
        handle_enemyKill_def handle_groundDrop_def handle_pong_def bind_err_Inr Let_def deref_def
        split: if_splits)

text \<open>A session record is written by the messages of its own connection only.\<close>

lemma record_written_by_owner_only:
  assumes wfs: "wf s" and cl: "closures s v = Some c" and pd: "pData c = Some r"
    and st: "step B ev s = Inr s'"
    and other: "\<forall>fr now rnd. ev \<noteq> Message v fr now rnd"
  shows "heap s' r = heap s r"
proof (cases ev)
  case (Connection w)
  with st show ?thesis
    by (auto simp: on_connection_def ws_close_def sendTo_def ws_send_def
             split: if_splits option.splits ready_state.splits)
next
  case (Message w fr now rnd)
  with other have wv: "w \<noteq> v" by auto
  from st Message have "s' = s \<or> on_message B now rnd w fr s = Inr s'" by (auto split: if_splits)
  then show ?thesis
  proof
    assume "s' = s" then show ?thesis by simp
  next
  assume om: "on_message B now rnd w fr s = Inr s'"
  show ?thesis
  proof (cases "closures s w")
    case None
    with om show ?thesis by (simp add: on_message_def)
  next
    case (Some c')
    show ?thesis
    proof (cases fr)
      case Malformed
      with om Some show ?thesis by (simp add: on_message_def)
    next
      case (Decoded msg)
      show ?thesis
      proof (cases "joined c'")
        case False
        have alloc: "r < nextRef s" using wf_alloc[OF wfs cl pd] .
        from om Some Decoded False have "s' = s \<or> handle_join now rnd w msg s = Inr s'"
          by (auto simp: on_message_def split: if_splits)
        then show ?thesis using alloc by (auto simp: handle_join_eq)
      next
        case True
        with wf_joined[OF wfs Some] obtain r' where r': "pData c' = Some r'" by auto
        have ne: "r \<noteq> r'" using wf_own[OF wfs cl Some pd] r' wv by auto
        from om Some Decoded True r' show ?thesis
          by (auto simp: on_message_def split: if_splits dest: handlers_write_own_record[OF _ ne])
      qed
    qed
  qed
  qed
next
  case (Close w)
  with st show ?thesis by (auto split: if_splits)
next
  case (Error w)
  with st show ?thesis by (auto simp: on_error_def split: option.splits if_splits)
next
  case (Tick now)
  with st show ?thesis by (auto simp: heartbeat_def)
qed

text \<open>A move writes the coerced position into the record of the sender.\<close>

lemma move_writes_position:
  assumes cl: "closures s w = Some c" and j: "joined c" and pd: "pData c = Some r"
    and ty: "fld msg ''type'' = Some (JStr (js ''move''))"
    and ok: "on_message B now rnd w (Decoded msg) s = Inr s'"
  shows "\<exists>x z ry. num_or B (fld msg ''x'') (Num 0) = Inr x \<and> num_or B (fld msg ''z'') (Num 0) = Inr z
           \<and> num_or B (fld msg ''ry'') (Num 0) = Inr ry
           \<and> heap s' r = (heap s r)\<lparr>p_x := x, p_z := z, p_ry := ry,
                                     p_moving := truthy (fld msg ''moving'')\<rparr>"
proof -
  have "handle_move B w (Some r) msg s = Inr s'"
    using ok cl j pd ty fld_type_not_null[OF ty] by (simp add: on_message_def)
  then show ?thesis
    by (auto simp: handle_move_def bind_err_Inr deref_def Let_def)
qed

text \<open>A pong writes the time of its arrival into the record of the sender.\<close>

lemma pong_writes_lastPing:
  assumes cl: "closures s w = Some c" and j: "joined c" and pd: "pData c = Some r"
    and ty: "fld msg ''type'' = Some (JStr (js ''pong''))"
  shows "on_message B now rnd w (Decoded msg) s
           = Inr (s\<lparr>heap := (heap s)(r := (heap s r)\<lparr>p_lastPing := now\<rparr>)\<rparr>)"
  using cl j pd ty fld_type_not_null[OF ty] by (simp add: on_message_def handle_pong_def deref_def)

text \<open>Alice drops some ore in the lobby.\<close>

lemma lobby_drop:
  assumes "\<exists>n. ToNumber B0 v = Inr n"
  shows "on_message B0 3000 [] 0 (Decoded (drop_msg v)) (after B0 lobby)
              = Inr (after B0 (lobby @ [Message 0 (Decoded (drop_msg v)) 3000 []]))"
    and "fld (drop_msg v) ''type'' = Some (JStr (js ''groundDrop''))"
    and "fld (drop_msg v) ''quantity'' = v"
    and "num_or B0 (fld (drop_msg v) ''x'') (Num 0) = Inr (Num 0)"
    and "num_or B0 (fld (drop_msg v) ''z'') (Num 0) = Inr (Num 0)"
    and "item_id (fld (drop_msg v) ''itemId'') = Inr (JStr (js ''ore''))"
proof -
  let ?s = "after B0 lobby"
  have cl: "closures ?s 0 = Some \<lparr>joined = True, pData = Some 0\<rparr>" by (simp add: lobby_state)
  show ty: "fld (drop_msg v) ''type'' = Some (JStr (js ''groundDrop''))"
    by (simp add: drop_msg_def fld_def)
  have nn: "drop_msg v \<noteq> JNull" using ty by (rule fld_type_not_null)
  show qv: "fld (drop_msg v) ''quantity'' = v"
    by (cases v) (simp_all add: drop_msg_def fld_def js_def)
  show x: "num_or B0 (fld (drop_msg v) ''x'') (Num 0) = Inr (Num 0)"
    by (simp add: drop_msg_def fld_def js_def num_or_def truthy_num_def split: option.splits)
  show z: "num_or B0 (fld (drop_msg v) ''z'') (Num 0) = Inr (Num 0)"
    by (simp add: drop_msg_def fld_def js_def num_or_def truthy_num_def split: option.splits)
  show it: "item_id (fld (drop_msg v) ''itemId'') = Inr (JStr (js ''ore''))"
    by (simp add: drop_msg_def fld_def js_def item_id_def or_else_def slice_list_def split: option.splits)
  from assms obtain n where n: "ToNumber B0 v = Inr n" by blast
  obtain q where dq: "drop_quantity B0 v = Inr q"
    by (simp add: drop_quantity_def num_or_def n)
  have "\<exists>s'. on_message B0 3000 [] 0 (Decoded (drop_msg v)) ?s = Inr s'"
    by (simp add: on_message_def cl ty nn handle_groundDrop_def deref_def qv x z it dq)
  then show "on_message B0 3000 [] 0 (Decoded (drop_msg v)) ?s
              = Inr (after B0 (lobby @ [Message 0 (Decoded (drop_msg v)) 3000 []]))"
    using step_after(1)[OF lobby_ok, of "Message 0 (Decoded (drop_msg v)) 3000 []"] lobby_live
    by simp
qed

text \<open>What an accepted join allocates.\<close>

lemma join_creates_session:
  assumes acc: "accepts_join s w (Decoded msg)"
    and ok: "on_message B now rnd w (Decoded msg) s = Inr s'"
  shows "\<exists>name. join_name (fld msg ''name'') = Inr name
          \<and> closures s' = (closures s)(w \<mapsto> \<lparr>joined = True, pData = Some (nextRef s)\<rparr>)
          \<and> heap s' = (heap s)(nextRef s := new_pdata (genId rnd) name now)"
proof -
  from acc obtain c where cl: "closures s w = Some c" and nj: "\<not> joined c"
    and ty: "fld msg ''type'' = Some (JStr (js ''join''))"
    by (auto simp: accepts_join_def split: option.splits)
  have "handle_join now rnd w msg s = Inr s'"
    using ok cl nj ty fld_type_not_null[OF ty] by (simp add: on_message_def)
  then obtain name where nm: "join_name (fld msg ''name'') = Inr name"
    and s': "s' = broadcast (JoinMsg (genId rnd) name) (Some w)
             (sendTo w (WelcomeMsg (genId rnd)
                (existing_loop w (heap (joined_state now rnd name w s)) (players (joined_state now rnd name w s))))
                (joined_state now rnd name w s))"
    unfolding handle_join_eq by blast
  have "closures s' = (closures s)(w \<mapsto> \<lparr>joined = True, pData = Some (nextRef s)\<rparr>)"
    and "heap s' = (heap s)(nextRef s := new_pdata (genId rnd) name now)"
    by (simp_all add: s' joined_state_def)
  then show ?thesis using nm by blast
qed

section \<open>The records of the server and the sessions of the spec\<close>

text \<open>
  Along a run the record that the closure of a joined connection holds shows, through
  \<open>entry_of\<close>, the view that \<open>spec_views\<close> keeps for this connection.
\<close>

lemma joined_message_refines:
  assumes cl: "closures s w = Some c" and j: "joined c" and pd: "pData c = Some r"
    and ok: "on_message B now rnd w (Decoded msg) s = Inr s'"
  shows "entry_of (heap s' r) = spec_update B msg (entry_of (heap s r))"
    and "closures s' = closures s"
  using assms
  by (auto simp: on_message_def spec_update_def entry_of_def handle_move_def handle_chat_def
        handle_equip_def handle_stats_def handle_attack_def handle_enemyKill_def
        handle_groundDrop_def handle_pong_def bind_err_Inr deref_def Let_def
      split: if_splits)

lemma entry_of_new_pdata: "entry_of (new_pdata i n now) = spec_join i n"
  by (simp add: entry_of_def new_pdata_def spec_join_def)

lemma ignored_message:
  assumes "\<not> accepts_join s w (Decoded msg)" "closures s w = Some c" "\<not> joined c"
    and "on_message B now rnd w (Decoded msg) s = Inr s'"
  shows "s' = s"
  using assms by (auto simp: on_message_def accepts_join_def split: if_splits)

lemma views_step:
  assumes wfs: "wf s" and st: "step B ev s = Inr s'"
    and inv0: "\<forall>w c r. closures s w = Some c \<longrightarrow> pData c = Some r \<longrightarrow> V w = Some (entry_of (heap s r))"
    and cl': "closures s' w = Some c" and pd': "pData c = Some r"
  shows "spec_views B ev s V w = Some (entry_of (heap s' r))"
proof -
  have inv: "V w = Some (entry_of (heap s r))" if "closures s w = Some c" "pData c = Some r" for w c r
    using inv0 that by blast
  show ?thesis
  proof (cases ev)
  case (Connection v)
  have h: "heap s' = heap s"
    using st Connection
    by (auto simp: on_connection_def ws_close_def sendTo_def ws_send_def
             split: if_splits option.splits ready_state.splits)
  have "closures s w = Some c"
    using st Connection cl' pd'
    by (auto simp: on_connection_def ws_close_def sendTo_def ws_send_def
             split: if_splits option.splits ready_state.splits)
  from inv[OF this pd'] show ?thesis using Connection h by simp
next
  case (Close v)
  with st have "heap s' = heap s" "closures s' = closures s" by (auto split: if_splits)
  with inv[of w c r] cl' pd' Close show ?thesis by simp
next
  case (Error v)
  with st have "heap s' = heap s" "closures s' = closures s"
    by (auto simp: on_error_def split: if_splits option.splits)
  with inv[of w c r] cl' pd' Error show ?thesis by simp
next
  case (Tick now)
  with st have "heap s' = heap s" "closures s' = closures s" by (auto simp: heartbeat_def)
  with inv[of w c r] cl' pd' Tick show ?thesis by simp
next
  case (Message v fr now rnd)
  show ?thesis
  proof (cases "live s v \<and> (\<exists>msg. fr = Decoded msg)")
    case False
    then have "s' = s" using st Message
      by (cases fr) (auto simp: on_message_def split: if_splits option.splits)
    moreover have "spec_views B ev s V = V" using False Message by (cases fr) auto
    ultimately show ?thesis using inv[of w c r] cl' pd' by simp
  next
    case True
    then obtain msg where fr: "fr = Decoded msg" and lv: "live s v" by blast
    have om: "on_message B now rnd v (Decoded msg) s = Inr s'" using st Message fr lv by simp
    show ?thesis
    proof (cases "accepts_join s v (Decoded msg)")
      case acc: True
      from join_creates_session[OF acc om] obtain name where
        nm: "join_name (fld msg ''name'') = Inr name"
        and c': "closures s' = (closures s)(v \<mapsto> \<lparr>joined = True, pData = Some (nextRef s)\<rparr>)"
        and h': "heap s' = (heap s)(nextRef s := new_pdata (genId rnd) name now)"
        by blast
      note e = entry_of_new_pdata[of "genId rnd" name now]
      have sv: "spec_views B ev s V = V(v \<mapsto> spec_join (genId rnd) name)"
        using Message fr lv acc nm by simp
      show ?thesis
      proof (cases "w = v")
        case True
        with cl' pd' c' have "r = nextRef s" by auto
        with True sv h' e show ?thesis by simp
      next
        case False
        with cl' c' have c0: "closures s w = Some c" by simp
        have "r < nextRef s" using wf_alloc[OF wfs c0 pd'] .
        with inv[OF c0 pd'] False sv h' show ?thesis by simp
      qed
    next
      case nacc: False
      have sv: "spec_views B ev s V = V(v := map_option (spec_update B msg) (V v))"
        using Message fr lv nacc by simp
      show ?thesis
      proof (cases "closures s v")
        case None
        then have "s' = s" using om by (simp add: on_message_def)
        with cl' None have "w \<noteq> v" by auto
        with inv[of w c r] cl' pd' sv \<open>s' = s\<close> show ?thesis by simp
      next
        case (Some cv)
        show ?thesis
        proof (cases "joined cv")
          case False
          have "s' = s" using ignored_message[OF nacc Some False om] .
          have "w \<noteq> v"
          proof
            assume "w = v"
            with cl' \<open>s' = s\<close> Some have "c = cv" by simp
            with wf_joined[OF wfs Some] False pd' show False by simp
          qed
          with inv[of w c r] cl' pd' sv \<open>s' = s\<close> show ?thesis by simp
        next
          case True
          with wf_joined[OF wfs Some] obtain rv where rv: "pData cv = Some rv" by auto
          note jr = joined_message_refines[OF Some True rv om]
          show ?thesis
          proof (cases "w = v")
            case wv: True
            with cl' jr(2) Some have "c = cv" by simp
            with pd' rv have "r = rv" by simp
            with inv[OF Some rv] jr(1) sv wv show ?thesis by simp
          next
            case wv: False
            have c0: "closures s w = Some c" using cl' jr(2) by simp
            have "heap s' r = heap s r"
              using record_written_by_owner_only[OF wfs c0 pd' st] Message wv by simp
            with inv[OF c0 pd'] sv wv show ?thesis by simp
          qed
        qed
      qed
    qed
  qed
  qed
qed

lemma views_run_refines:
  assumes "wf s" and "run B evs s = Inr s'"
    and "\<forall>w c r. closures s w = Some c \<longrightarrow> pData c = Some r \<longrightarrow> V w = Some (entry_of (heap s r))"
    and "closures s' w = Some c" and "pData c = Some r"
  shows "views_run B evs s V w = Some (entry_of (heap s' r))"
  using assms
proof (induction evs arbitrary: s V)
  case Nil then show ?case by simp
next
  case (Cons ev evs)
  from Cons.prems(2) obtain s1 where s1: "step B ev s = Inr s1" "run B evs s1 = Inr s'"
    by (auto simp: bind_err_Inr)
  have wf1: "wf s1" using wf_step[OF Cons.prems(1) s1(1)] .
  have "\<forall>w c r. closures s1 w = Some c \<longrightarrow> pData c = Some r \<longrightarrow>
           spec_views B ev s V w = Some (entry_of (heap s1 r))"
    using views_step[OF Cons.prems(1) s1(1) Cons.prems(3)] by blast
  from Cons.IH[OF wf1 s1(2) this Cons.prems(4,5)] show ?case using s1(1) by simp
qed

lemma views_after_refines:
  assumes "run B evs init = Inr s" and "closures s w = Some c" and "pData c = Some r"
  shows "views_after B evs w = Some (entry_of (heap s r))"
  unfolding views_after_def
  by (rule views_run_refines[OF wf_init assms(1) _ assms(2,3)]) (simp add: init_def)

lemma views_run_append:
  "run B xs s = Inr s1 \<Longrightarrow> views_run B (xs @ ys) s V = views_run B ys s1 (views_run B xs s V)"
proof (induction xs arbitrary: s V)
  case Nil then show ?case by simp
next
  case (Cons ev xs)
  from Cons.prems obtain s2 where s2: "step B ev s = Inr s2" "run B xs s2 = Inr s1"
    by (auto simp: bind_err_Inr)
  from Cons.IH[OF s2(2)] s2(1) show ?case by simp
qed

lemma views_after_snoc:
  assumes "run B evs init = Inr s" and "step B ev s = Inr s'"
  shows "views_after B (evs @ [ev]) = spec_views B ev s (views_after B evs)"
  using assms by (simp add: views_after_def views_run_append)

text \<open>The view of a session changes with the messages of its own connection only.\<close>

lemma view_kept_by_others:
  assumes "run B evs init = Inr s" and "step B ev s = Inr s'"
    and "\<forall>fr now rnd. ev \<noteq> Message v fr now rnd"
  shows "views_after B (evs @ [ev]) v = views_after B evs v"
proof -
  have "spec_views B ev s V v = V v" for V
  proof (cases ev)
    case (Message u fr now rnd)
    with assms(3) have "u \<noteq> v" by auto
    with Message show ?thesis by (cases fr) (auto split: sum.splits)
  qed simp_all
  with views_after_snoc[OF assms(1,2)] show ?thesis by simp
qed

lemma view_after_own_message:
  assumes "run B evs init = Inr s" and "live s v" and "closures s v = Some c" and "joined c"
    and "step B (Message v (Decoded msg) now rnd) s = Inr s'"
  shows "views_after B (evs @ [Message v (Decoded msg) now rnd]) v
           = map_option (spec_update B msg) (views_after B evs v)"
  using views_after_snoc[OF assms(1,5)] assms(2,3,4) by (simp add: accepts_join_def)

text \<open>An \<open>equip\<close> and a \<open>stats\<close> message replace the equipment and the stats of the sender.\<close>

lemma equip_writes_equipment:
  assumes cl: "closures s w = Some c" and j: "joined c" and pd: "pData c = Some r"
    and ty: "fld msg ''type'' = Some (JStr (js ''equip''))"
    and ok: "on_message B now rnd w (Decoded msg) s = Inr s'"
  shows "heap s' r = (heap s r)\<lparr>p_equipment := or_else (fld msg ''equipment'') (JObj [])\<rparr>"
proof -
  have "handle_equip w (Some r) msg s = Inr s'"
    using ok cl j pd ty fld_type_not_null[OF ty] by (simp add: on_message_def)
  then show ?thesis
    by (auto simp: handle_equip_def bind_err_Inr deref_def Let_def)
qed

lemma stats_writes_stats:
  assumes cl: "closures s w = Some c" and j: "joined c" and pd: "pData c = Some r"
    and ty: "fld msg ''type'' = Some (JStr (js ''stats''))"
    and ok: "on_message B now rnd w (Decoded msg) s = Inr s'"
  shows "\<exists>lv h mh. num_or B (fld msg ''level'') (Num 1) = Inr lv
           \<and> num_or B (fld msg ''hp'') (Num 100) = Inr h
           \<and> num_or B (fld msg ''maxHp'') (Num 100) = Inr mh
           \<and> heap s' r = (heap s r)\<lparr>p_stats :=
                \<lparr>level = lv, combatStyle = or_else (fld msg ''combatStyle'') (JStr (js ''nano'')),
                 hp = h, maxHp = mh,
                 area = or_else (fld msg ''area'') (JStr (js ''station-hub''))\<rparr>\<rparr>"
proof -
  have "handle_stats B w (Some r) msg s = Inr s'"
    using ok cl j pd ty fld_type_not_null[OF ty] by (simp add: on_message_def)
  then show ?thesis
    by (auto simp: handle_stats_def bind_err_Inr deref_def Let_def)
qed

section \<open>What a step keeps\<close>

text \<open>
  The closure, the identifier and \<open>lastPing\<close> of a session, its absence from the registry
  and the state of a socket that is not open, from one event to the next.
\<close>

lemma message_keeps:
  assumes "closures s v = Some c" "joined c" "on_message B now rnd v fr s = Inr s'"
  shows "same_registry s s'" and "p_id (heap s' r) = p_id (heap s r)"
  using assms
  by (auto simp: on_message_def same_registry_def
           split: frame.splits if_splits dest: handlers_same_registry handlers_keep_ids)

lemma message_keeps_lastPing:
  assumes "closures s v = Some c" "joined c" "on_message B now rnd v fr s = Inr s'"
    and "\<not> is_pong v (Message v fr now rnd)"
  shows "p_lastPing (heap s' r) = p_lastPing (heap s r)"
  using assms
  by (auto simp: on_message_def handle_move_def handle_chat_def
        handle_equip_def handle_stats_def handle_attack_def handle_enemyKill_def
        handle_groundDrop_def bind_err_Inr deref_def Let_def
      split: frame.splits if_splits)

lemma message_unjoined:
  assumes "closures s v = Some c" "\<not> joined c" "on_message B now rnd v fr s = Inr s'"
  shows "s' = s \<or> (\<exists>msg. fr = Decoded msg \<and> accepts_join s v (Decoded msg))"
  using assms by (auto simp: on_message_def accepts_join_def split: frame.splits if_splits)

lemma joined_state_of_join:
  assumes acc: "accepts_join s v (Decoded msg)"
    and ok: "on_message B now rnd v (Decoded msg) s = Inr s'"
  shows "\<exists>name. s' = broadcast (JoinMsg (genId rnd) name) (Some v)
             (sendTo v (WelcomeMsg (genId rnd)
                (existing_loop v (heap (joined_state now rnd name v s)) (players (joined_state now rnd name v s))))
                (joined_state now rnd name v s))"
proof -
  from acc obtain c where cl: "closures s v = Some c" and nj: "\<not> joined c"
    and ty: "fld msg ''type'' = Some (JStr (js ''join''))"
    by (auto simp: accepts_join_def split: option.splits)
  have "handle_join now rnd v msg s = Inr s'"
    using ok cl nj ty fld_type_not_null[OF ty] by (simp add: on_message_def)
  then show ?thesis unfolding handle_join_eq by blast
qed

text \<open>The closure of a connection that has joined stays as it is.\<close>

lemma closure_kept:
  assumes wfs: "wf s" and cl: "closures s w = Some c" and j: "joined c"
    and st: "step B ev s = Inr s'"
  shows "closures s' w = Some c"
proof (cases ev)
  case (Connection v)
  with st cl wf_socket[OF wfs cl] show ?thesis
    by (auto simp: on_connection_def ws_close_def sendTo_def ws_send_def
             split: if_splits option.splits ready_state.splits)
next
  case (Message v fr now rnd)
  show ?thesis
  proof (cases "live s v")
    case False with st Message cl show ?thesis by simp
  next
    case True
    with st Message have om: "on_message B now rnd v fr s = Inr s'" by simp
    show ?thesis
    proof (cases "closures s v")
      case None with om cl show ?thesis by (simp add: on_message_def)
    next
      case (Some cv)
      show ?thesis
      proof (cases "joined cv")
        case True
        from message_keeps(1)[OF Some True om] cl show ?thesis by (simp add: same_registry_def)
      next
        case False
        with Some cl j have vw: "v \<noteq> w" by auto
        from message_unjoined[OF Some False om] show ?thesis
        proof
          assume "s' = s" with cl show ?thesis by simp
        next
          assume "\<exists>msg. fr = Decoded msg \<and> accepts_join s v (Decoded msg)"
          then obtain msg where fr: "fr = Decoded msg" and acc: "accepts_join s v (Decoded msg)" by blast
          from join_creates_session[OF acc om[unfolded fr]] vw cl show ?thesis by auto
        qed
      qed
    qed
  qed
next
  case (Close v) with st cl show ?thesis by (auto split: if_splits)
next
  case (Error v) with st cl show ?thesis by (auto simp: on_error_def split: if_splits option.splits)
next
  case (Tick now) with st cl show ?thesis by (auto simp: heartbeat_def)
qed

text \<open>No step rewrites the identifier of a session.\<close>

lemma id_kept:
  assumes wfs: "wf s" and cl: "closures s w = Some c" and pd: "pData c = Some r"
    and st: "step B ev s = Inr s'"
  shows "p_id (heap s' r) = p_id (heap s r)"
proof (cases "\<exists>fr now rnd. ev = Message w fr now rnd")
  case False
  then show ?thesis using record_written_by_owner_only[OF wfs cl pd st] by simp
next
  case True
  then obtain fr now rnd where ev: "ev = Message w fr now rnd" by blast
  have j: "joined c" using wf_joined[OF wfs cl] pd by simp
  show ?thesis
  proof (cases "live s w")
    case False with st ev show ?thesis by simp
  next
    case True
    with st ev have "on_message B now rnd w fr s = Inr s'" by simp
    from message_keeps(2)[OF cl j this] show ?thesis .
  qed
qed

text \<open>Only a pong of its own connection rewrites \<open>lastPing\<close> of a session.\<close>

lemma lastPing_kept:
  assumes wfs: "wf s" and cl: "closures s w = Some c" and pd: "pData c = Some r"
    and st: "step B ev s = Inr s'" and np: "\<not> is_pong w ev"
  shows "p_lastPing (heap s' r) = p_lastPing (heap s r)"
proof (cases "\<exists>fr now rnd. ev = Message w fr now rnd")
  case False
  then show ?thesis using record_written_by_owner_only[OF wfs cl pd st] by simp
next
  case True
  then obtain fr now rnd where ev: "ev = Message w fr now rnd" by blast
  have j: "joined c" using wf_joined[OF wfs cl] pd by simp
  show ?thesis
  proof (cases "live s w")
    case False with st ev show ?thesis by simp
  next
    case True
    with st ev have "on_message B now rnd w fr s = Inr s'" by simp
    from message_keeps_lastPing[OF cl j this] np ev show ?thesis by simp
  qed
qed

text \<open>The join of a connection and the pong of a session set \<open>lastPing\<close> to the time of the message.\<close>

lemma refreshes_sets_lastPing:
  assumes wfs: "wf s" and rf: "refreshes s w msg"
    and st: "step B (Message w (Decoded msg) t rnd) s = Inr s'"
  shows "\<exists>r. closures s' w = Some \<lparr>joined = True, pData = Some r\<rparr> \<and> p_lastPing (heap s' r) = t"
proof -
  from rf obtain c where lv: "live s w" and cl: "closures s w = Some c"
    and ty: "if joined c then fld msg ''type'' = Some (JStr (js ''pong''))
             else fld msg ''type'' = Some (JStr (js ''join''))"
    by (auto simp: refreshes_def split: option.splits)
  from st lv have om: "on_message B t rnd w (Decoded msg) s = Inr s'" by simp
  show ?thesis
  proof (cases "joined c")
    case True
    with wf_joined[OF wfs cl] obtain r where pd: "pData c = Some r" by auto
    from ty True have tp: "fld msg ''type'' = Some (JStr (js ''pong''))" by simp
    from om pong_writes_lastPing[OF cl True pd tp, of B t rnd]
    have s': "s' = s\<lparr>heap := (heap s)(r := (heap s r)\<lparr>p_lastPing := t\<rparr>)\<rparr>" by simp
    have "c = \<lparr>joined = True, pData = Some r\<rparr>" using True pd by (cases c) simp
    with cl s' show ?thesis by (intro exI[of _ r]) simp
  next
    case False
    with ty cl have acc: "accepts_join s w (Decoded msg)" by (simp add: accepts_join_def)
    from join_creates_session[OF acc om] obtain name where
      "closures s' = (closures s)(w \<mapsto> \<lparr>joined = True, pData = Some (nextRef s)\<rparr>)"
      "heap s' = (heap s)(nextRef s := new_pdata (genId rnd) name t)" by blast
    then show ?thesis by (intro exI[of _ "nextRef s"]) (simp add: new_pdata_def)
  qed
qed

text \<open>A connection that has joined and is not registered is never registered again.\<close>

lemma unregistered_kept:
  assumes wfs: "wf s" and cl: "closures s w = Some c" and j: "joined c"
    and nr: "\<not> registered s w" and st: "step B ev s = Inr s'"
  shows "\<not> registered s' w"
proof (cases ev)
  case (Connection v)
  with st nr show ?thesis
    by (auto simp: registered_def on_connection_def ws_close_def sendTo_def ws_send_def
             split: if_splits option.splits ready_state.splits)
next
  case (Message v fr now rnd)
  show ?thesis
  proof (cases "live s v")
    case False with st Message nr show ?thesis by simp
  next
    case True
    with st Message have om: "on_message B now rnd v fr s = Inr s'" by simp
    show ?thesis
    proof (cases "closures s v")
      case None with om nr show ?thesis by (simp add: on_message_def)
    next
      case (Some cv)
      show ?thesis
      proof (cases "joined cv")
        case True
        from message_keeps(1)[OF Some True om] nr show ?thesis
          by (simp add: same_registry_def registered_def)
      next
        case False
        with Some cl j have vw: "v \<noteq> w" by auto
        have nv: "v \<notin> fst ` set (players s)" using wfs Some False by (rule wf_not_registered)
        from message_unjoined[OF Some False om] show ?thesis
        proof
          assume "s' = s" with nr show ?thesis by simp
        next
          assume "\<exists>msg. fr = Decoded msg \<and> accepts_join s v (Decoded msg)"
          then obtain msg where fr: "fr = Decoded msg" and acc: "accepts_join s v (Decoded msg)" by blast
          from joined_state_of_join[OF acc om[unfolded fr]] obtain name where
            "s' = broadcast (JoinMsg (genId rnd) name) (Some v)
             (sendTo v (WelcomeMsg (genId rnd)
                (existing_loop v (heap (joined_state now rnd name v s)) (players (joined_state now rnd name v s))))
                (joined_state now rnd name v s))" by blast
          then have "players s' = players s @ [(v, nextRef s)]"
            by (simp add: joined_state_players[OF nv])
          with nr vw show ?thesis by (auto simp: registered_def)
        qed
      qed
    qed
  qed
next
  case (Close v)
  with st nr show ?thesis
    by (auto simp: registered_def on_close_def Let_def set_delete split: if_splits option.splits)
next
  case (Error v)
  with st nr show ?thesis
    by (auto simp: registered_def on_error_def set_delete split: if_splits option.splits)
next
  case (Tick now)
  with st nr show ?thesis by (auto simp: registered_def heartbeat_def heartbeat_loop_players)
qed

text \<open>Only its \<open>close\<close> event changes the state of a socket that is not open.\<close>

lemma message_keeps_sockets:
  assumes "on_message B now rnd v fr s = Inr s'"
  shows "readyState s' = readyState s"
proof (cases "closures s v")
  case None with assms show ?thesis by (simp add: on_message_def)
next
  case (Some cv)
  show ?thesis
  proof (cases "joined cv")
    case True
    from message_keeps(1)[OF Some True assms] show ?thesis by (simp add: same_registry_def)
  next
    case False
    from message_unjoined[OF Some False assms] show ?thesis
    proof
      assume "s' = s" then show ?thesis by simp
    next
      assume "\<exists>msg. fr = Decoded msg \<and> accepts_join s v (Decoded msg)"
      then obtain msg where fr: "fr = Decoded msg" and acc: "accepts_join s v (Decoded msg)" by blast
      from joined_state_of_join[OF acc assms[unfolded fr]] show ?thesis
        by (auto simp: joined_state_def)
    qed
  qed
qed

lemma socket_kept:
  assumes st: "step B ev s = Inr s'" and ex: "readyState s w \<noteq> None"
    and no: "readyState s w \<noteq> Some OPEN" and ev: "ev \<noteq> Close w"
  shows "readyState s' w = readyState s w"
proof (cases ev)
  case (Connection v)
  with st ex show ?thesis
    by (auto simp: on_connection_def ws_close_def sendTo_def ws_send_def
             split: if_splits option.splits ready_state.splits)
next
  case (Message v fr now rnd)
  with st message_keeps_sockets[of B now rnd v fr s s'] show ?thesis by (auto split: if_splits)
next
  case (Close v)
  with st ev show ?thesis by (auto split: if_splits)
next
  case (Error v)
  with st show ?thesis by (auto simp: on_error_def split: if_splits option.splits)
next
  case (Tick now)
  with st no show ?thesis by (auto simp: heartbeat_def heartbeat_loop_readyState)
qed

lemma closed_kept:
  assumes st: "step B ev s = Inr s'" and cd: "readyState s w = Some CLOSED"
  shows "readyState s' w = Some CLOSED"
proof (cases "ev = Close w")
  case True with st cd show ?thesis by (simp add: live_def)
next
  case False
  from socket_kept[OF st _ _ False] cd show ?thesis by simp
qed

lemma closed_kept_run:
  "run B evs s = Inr s' \<Longrightarrow> readyState s w = Some CLOSED \<Longrightarrow> readyState s' w = Some CLOSED"
proof (induction evs arbitrary: s)
  case Nil then show ?case by simp
next
  case (Cons ev evs)
  from Cons.prems(1) obtain s1 where s1: "step B ev s = Inr s1" "run B evs s1 = Inr s'"
    by (auto simp: bind_err_Inr)
  from Cons.IH[OF s1(2) closed_kept[OF s1(1) Cons.prems(2)]] show ?case .
qed

text \<open>The transport never leaves a socket connecting.\<close>

lemma step_sockets:
  assumes "step B ev s = Inr s'"
  shows "readyState s' w = readyState s w \<or> readyState s' w = Some OPEN
       \<or> readyState s' w = Some CLOSING \<or> readyState s' w = Some CLOSED"
proof (cases ev)
  case (Connection v)
  with assms show ?thesis
    by (auto simp: on_connection_def ws_close_def sendTo_def ws_send_def
             split: if_splits option.splits ready_state.splits)
next
  case (Message v fr now rnd)
  with assms message_keeps_sockets[of B now rnd v fr s s'] show ?thesis by (auto split: if_splits)
next
  case (Close v)
  with assms show ?thesis by (auto split: if_splits)
next
  case (Error v)
  with assms show ?thesis by (auto simp: on_error_def split: if_splits option.splits)
next
  case (Tick now)
  with assms have "s' = heartbeat_loop now (players s) s" by (simp add: heartbeat_def)
  then show ?thesis by (simp add: heartbeat_loop_readyState)
qed

lemma never_connecting_from:
  "run B evs s = Inr s' \<Longrightarrow> readyState s w \<noteq> Some CONNECTING \<Longrightarrow> readyState s' w \<noteq> Some CONNECTING"
proof (induction evs arbitrary: s)
  case Nil then show ?case by simp
next
  case (Cons ev evs)
  from Cons.prems(1) obtain s1 where s1: "step B ev s = Inr s1" "run B evs s1 = Inr s'"
    by (auto simp: bind_err_Inr)
  have "readyState s1 w \<noteq> Some CONNECTING"
    using step_sockets[OF s1(1), of w] Cons.prems(2) by auto
  from Cons.IH[OF s1(2) this] show ?case .
qed

lemma never_connecting: "run B evs init = Inr s \<Longrightarrow> readyState s w \<noteq> Some CONNECTING"
  using never_connecting_from[of B evs init s w] by (simp add: init_def)

section \<open>Who sends a leave\<close>

text \<open>
  The handlers of messages and errors, the connection callback and the heartbeat send no
  \<open>leave\<close>: only the close handler does.
\<close>

lemma leaves_append [simp]: "leaves (xs @ ys) = leaves xs @ leaves ys"
  by (simp add: leaves_def)

lemma leaves_broadcast:
  "ptype d \<noteq> ''leave'' \<Longrightarrow> leaves (received (broadcast d ex s) u) = leaves (received s u)"
  by (simp add: leaves_def received_def broadcast_eq filter_map comp_def)

lemma leaves_sendTo:
  "ptype d \<noteq> ''leave'' \<Longrightarrow> leaves (received (sendTo v d s) u) = leaves (received s u)"
  by (simp add: leaves_def received_def sendTo_def ws_send_def)

lemma relayed_no_leave:
  assumes "relayed ty w s s'" "ty \<noteq> ''leave''"
  shows "leaves (received s' u) = leaves (received s u)"
proof -
  from assms(1) obtain d h where d: "ptype d = ty" and s': "s' = broadcast d (Some w) (s\<lparr>heap := h\<rparr>)"
    unfolding relayed_def by blast
  from d assms(2) show ?thesis by (simp add: s' leaves_broadcast)
qed

lemma handlers_send_no_leave:
  "handle_move B w pd msg s = Inr s' \<Longrightarrow> leaves (received s' u) = leaves (received s u)"
  "handle_chat w pd msg s = Inr s' \<Longrightarrow> leaves (received s' u) = leaves (received s u)"
  "handle_equip w pd msg s = Inr s' \<Longrightarrow> leaves (received s' u) = leaves (received s u)"
  "handle_stats B w pd msg s = Inr s' \<Longrightarrow> leaves (received s' u) = leaves (received s u)"
  "handle_attack B w pd msg s = Inr s' \<Longrightarrow> leaves (received s' u) = leaves (received s u)"
  "handle_enemyKill w pd msg s = Inr s' \<Longrightarrow> leaves (received s' u) = leaves (received s u)"
  "handle_groundDrop B w pd msg s = Inr s' \<Longrightarrow> leaves (received s' u) = leaves (received s u)"
  "handle_pong now pd s = Inr s' \<Longrightarrow> leaves (received s' u) = leaves (received s u)"
proof -
  show "handle_move B w pd msg s = Inr s' \<Longrightarrow> leaves (received s' u) = leaves (received s u)"
    using relays(1)[of B w pd msg s s'] by (simp add: relayed_no_leave)
  show "handle_equip w pd msg s = Inr s' \<Longrightarrow> leaves (received s' u) = leaves (received s u)"
    using relays(2)[of w pd msg s s'] by (simp add: relayed_no_leave)
  show "handle_stats B w pd msg s = Inr s' \<Longrightarrow> leaves (received s' u) = leaves (received s u)"
    using relays(3)[of B w pd msg s s'] by (simp add: relayed_no_leave)
  show "handle_attack B w pd msg s = Inr s' \<Longrightarrow> leaves (received s' u) = leaves (received s u)"
    using relays(4)[of B w pd msg s s'] by (simp add: relayed_no_leave)
  show "handle_enemyKill w pd msg s = Inr s' \<Longrightarrow> leaves (received s' u) = leaves (received s u)"
    using relays(5)[of w pd msg s s'] by (simp add: relayed_no_leave)
  show "handle_groundDrop B w pd msg s = Inr s' \<Longrightarrow> leaves (received s' u) = leaves (received s u)"
    using relays(6)[of B w pd msg s s'] by (simp add: relayed_no_leave)
  show "handle_chat w pd msg s = Inr s' \<Longrightarrow> leaves (received s' u) = leaves (received s u)"
    by (auto simp: handle_chat_def bind_err_Inr leaves_broadcast split: if_splits)
  show "handle_pong now pd s = Inr s' \<Longrightarrow> leaves (received s' u) = leaves (received s u)"
    by (auto simp: handle_pong_def bind_err_Inr)
qed

lemma message_sends_no_leave:
  assumes om: "on_message B now rnd v fr s = Inr s'"
  shows "leaves (received s' u) = leaves (received s u)"
proof (cases "closures s v")
  case None with om show ?thesis by (simp add: on_message_def)
next
  case (Some cv)
  show ?thesis
  proof (cases "joined cv")
    case False
    from message_unjoined[OF Some False om] show ?thesis
    proof
      assume "s' = s" then show ?thesis by simp
    next
      assume "\<exists>msg. fr = Decoded msg \<and> accepts_join s v (Decoded msg)"
      then obtain msg where fr: "fr = Decoded msg" and acc: "accepts_join s v (Decoded msg)" by blast
      from joined_state_of_join[OF acc om[unfolded fr]] obtain name where
        s': "s' = broadcast (JoinMsg (genId rnd) name) (Some v)
             (sendTo v (WelcomeMsg (genId rnd)
                (existing_loop v (heap (joined_state now rnd name v s)) (players (joined_state now rnd name v s))))
                (joined_state now rnd name v s))" by blast
      have "received (joined_state now rnd name v s) u = received s u"
        by (simp add: received_def)
      then show ?thesis by (simp add: s' leaves_broadcast leaves_sendTo)
    qed
  next
    case True
    with om Some show ?thesis
      by (auto simp: on_message_def split: frame.splits if_splits dest: handlers_send_no_leave)
  qed
qed

lemma heartbeat_sends_no_leave:
  "leaves (received (heartbeat_loop now es s) u) = leaves (received s u)"
proof (induction es arbitrary: s)
  case Nil then show ?case by simp
next
  case (Cons e es)
  have "leaves (received (beat now e s) u) = leaves (received s u)"
    by (simp add: received_def beat_sent leaves_def)
  with Cons.IH[of "beat now e s"] show ?case by (simp only: heartbeat_loop_Cons)
qed

text \<open>No event but the close of a live socket makes anybody receive a \<open>leave\<close>.\<close>

lemma step_sends_no_leave:
  assumes st: "step B ev s = Inr s'" and nc: "\<forall>x. ev = Close x \<longrightarrow> \<not> live s x"
  shows "leaves (received s' u) = leaves (received s u)"
proof (cases ev)
  case (Connection v)
  with st show ?thesis
    by (auto simp: on_connection_def ws_close_def sendTo_def ws_send_def received_def leaves_def
             split: if_splits option.splits ready_state.splits)
next
  case (Message v fr now rnd)
  with st message_sends_no_leave[of B now rnd v fr s s' u] show ?thesis by (auto split: if_splits)
next
  case (Close v)
  with st nc show ?thesis by simp
next
  case (Error v)
  with st show ?thesis by (auto simp: on_error_def received_def split: if_splits option.splits)
next
  case (Tick now)
  with st show ?thesis by (auto simp: heartbeat_def heartbeat_sends_no_leave)
qed

lemma leaves_need_a_close:
  assumes "run B evs s = Inr s'" and "\<forall>x. Close x \<in> set evs \<longrightarrow> readyState s x = Some CLOSED"
  shows "leaves (received s' u) = leaves (received s u)"
  using assms
proof (induction evs arbitrary: s)
  case Nil then show ?case by simp
next
  case (Cons ev evs)
  from Cons.prems(1) obtain s1 where s1: "step B ev s = Inr s1" "run B evs s1 = Inr s'"
    by (auto simp: bind_err_Inr)
  have "\<forall>x. ev = Close x \<longrightarrow> \<not> live s x" using Cons.prems(2) by (auto simp: live_def)
  from step_sends_no_leave[OF s1(1) this] have a: "leaves (received s1 u) = leaves (received s u)" .
  have "\<forall>x. Close x \<in> set evs \<longrightarrow> readyState s1 x = Some CLOSED"
    using Cons.prems(2) closed_kept[OF s1(1)] by auto
  from Cons.IH[OF s1(2) this] a show ?case by simp
qed

section \<open>The close of a session\<close>

text \<open>
  The close event of a joined connection whose socket is live, seen from every handle.
\<close>

lemma close_delivers_one_leave:
  assumes wfs: "wf s" and cl: "closures s w = Some c" and pd: "pData c = Some r" and lv: "live s w"
    and st: "step B (Close w) s = Inr s'"
  shows "received s' v = received s v @
           (if registered s v \<and> v \<noteq> w \<and> readyState s v = Some OPEN
            then [LeaveMsg (p_id (heap s r))] else [])"
    and "players s' = AList.delete w (players s)"
    and "readyState s' = (readyState s)(w \<mapsto> CLOSED)"
    and "closures s' = closures s" and "heap s' = heap s"
    and "s' = (broadcast (LeaveMsg (p_id (heap s r))) None (s\<lparr>readyState := (readyState s)(w \<mapsto> CLOSED)\<rparr>))
               \<lparr>players := AList.delete w (players s)\<rparr>"
proof -
  let ?c = "s\<lparr>readyState := (readyState s)(w \<mapsto> CLOSED)\<rparr>"
  let ?lv = "LeaveMsg (p_id (heap s r))"
  show s': "s' = (broadcast ?lv None ?c)\<lparr>players := AList.delete w (players s)\<rparr>"
    using st cl pd unfolding step_Close[OF lv] by (simp add: on_close_joined)
  have d: "distinct (map fst (players ?c))" using wf_distinct[OF wfs] by simp
  have "received s' v = received (broadcast ?lv None ?c) v" by (simp add: s' received_def)
  also have "\<dots> = received ?c v @ (if registered ?c v \<and> Some v \<noteq> None \<and> readyState ?c v = Some OPEN
                                      then [?lv] else [])"
    by (rule received_broadcast[OF d])
  also have "\<dots> = received s v @ (if registered s v \<and> v \<noteq> w \<and> readyState s v = Some OPEN then [?lv] else [])"
    by (auto simp: received_def registered_def)
  finally show "received s' v = received s v @
           (if registered s v \<and> v \<noteq> w \<and> readyState s v = Some OPEN then [?lv] else [])" .
  show "players s' = AList.delete w (players s)" "readyState s' = (readyState s)(w \<mapsto> CLOSED)"
    "closures s' = closures s" "heap s' = heap s"
    by (simp_all add: s')
qed

text \<open>What becomes of a session along a run.\<close>

lemma session_kept_run:
  assumes "wf s" "closures s w = Some c" "pData c = Some r" "run B evs s = Inr s'"
  shows "wf s' \<and> closures s' w = Some c \<and> p_id (heap s' r) = p_id (heap s r)
       \<and> (\<not> registered s w \<longrightarrow> \<not> registered s' w)
       \<and> ((\<forall>ev \<in> set evs. \<not> is_pong w ev) \<longrightarrow> p_lastPing (heap s' r) = p_lastPing (heap s r))
       \<and> (Close w \<notin> set evs \<longrightarrow> readyState s w \<noteq> Some OPEN \<longrightarrow> readyState s' w = readyState s w)"
  using assms
proof (induction evs arbitrary: s)
  case Nil then show ?case by simp
next
  case (Cons ev evs)
  from Cons.prems(4) obtain s1 where s1: "step B ev s = Inr s1" "run B evs s1 = Inr s'"
    by (auto simp: bind_err_Inr)
  have j: "joined c" using wf_joined[OF Cons.prems(1,2)] Cons.prems(3) by simp
  have wf1: "wf s1" using wf_step[OF Cons.prems(1) s1(1)] .
  have cl1: "closures s1 w = Some c" using closure_kept[OF Cons.prems(1,2) j s1(1)] .
  note ih = Cons.IH[OF wf1 cl1 Cons.prems(3) s1(2)]
  have a: "wf s'" and b: "closures s' w = Some c" using ih by simp_all
  have c: "p_id (heap s' r) = p_id (heap s r)"
    using ih id_kept[OF Cons.prems(1,2,3) s1(1)] by simp
  have d: "\<not> registered s w \<longrightarrow> \<not> registered s' w"
    using ih unregistered_kept[OF Cons.prems(1,2) j _ s1(1)] by blast
  have e: "(\<forall>ev \<in> set (ev # evs). \<not> is_pong w ev) \<longrightarrow> p_lastPing (heap s' r) = p_lastPing (heap s r)"
  proof
    assume np: "\<forall>ev \<in> set (ev # evs). \<not> is_pong w ev"
    then have "p_lastPing (heap s1 r) = p_lastPing (heap s r)"
      using lastPing_kept[OF Cons.prems(1,2,3) s1(1)] by simp
    moreover have "p_lastPing (heap s' r) = p_lastPing (heap s1 r)" using ih np by simp
    ultimately show "p_lastPing (heap s' r) = p_lastPing (heap s r)" by simp
  qed
  have f: "Close w \<notin> set (ev # evs) \<longrightarrow> readyState s w \<noteq> Some OPEN \<longrightarrow> readyState s' w = readyState s w"
  proof (intro impI)
    assume nc: "Close w \<notin> set (ev # evs)" and no: "readyState s w \<noteq> Some OPEN"
    have "readyState s1 w = readyState s w"
      using socket_kept[OF s1(1) wf_socket[OF Cons.prems(1,2)] no] nc by auto
    moreover have "readyState s' w = readyState s1 w" using ih nc no \<open>readyState s1 w = readyState s w\<close> by simp
    ultimately show "readyState s' w = readyState s w" by simp
  qed
  from a b c d e f show ?case by (intro conjI)
qed

section \<open>C1: the capacity of the registry\<close>

text \<open>
  C1. The capacity is tested in the connection callback only. Twenty-one clients that
  connect while the registry is empty are all admitted, and each of their joins is
  accepted: the registry then holds 21 sessions, one more than \<open>MAX_PLAYERS\<close>.
\<close>

theorem registry_reaches_21: "size_after B0 (crowd 21) = Some 21 \<and> MAX_PLAYERS = 20"
  using crowd_registers_all[of B0 21] by (simp add: MAX_PLAYERS_def)

section \<open>C2: eviction by the heartbeat\<close>

text \<open>
  C2. Let connection \<open>w\<close> have set \<open>lastPing\<close> of its session at time \<open>t\<close>, by the \<open>join\<close>
  that created the session or by a \<open>pong\<close>, and let it send no \<open>pong\<close> from then on. If the
  session is still registered when a tick comes at \<open>now\<close>, more than \<open>HEARTBEAT_TIMEOUT\<close>
  after \<open>t\<close>, the tick removes its entry, terminates its socket, which is closing from then
  on, and sends nothing but pings. The transport reports a terminated socket closed by
  the event \<open>Close w\<close>. Whatever happens before this event, the entry stays away, the socket
  stays closing, and nobody receives a \<open>leave\<close> as long as no socket is closed. When the
  event comes, every session that is registered and open receives exactly one \<open>leave\<close>,
  with the identifier of the evicted session. Whatever happens after it, the entry stays
  away, a further \<open>Close w\<close> changes nothing, and nobody receives a \<open>leave\<close> as long as no
  other socket is closed. The socket is reported closed in no other way: a run after the
  tick that ends with the socket closed contains the event.
\<close>

theorem heartbeat_eviction_one_leave:
  assumes reach: "run B evs init = Inr s0"
    and ack: "refreshes s0 w msg"
    and at: "step B (Message w (Decoded msg) t rnd) s0 = Inr s1"
    and quiet: "run B quiet s1 = Inr s"
    and nopong: "\<forall>ev \<in> set quiet. \<not> is_pong w ev"
    and entry: "(w, r) \<in> set (players s)"
    and late: "now - t > HEARTBEAT_TIMEOUT"
    and tick: "step B (Tick now) s = Inr s'"
  shows "\<not> registered s' w \<and> readyState s' w = Some CLOSING
       \<and> (\<exists>pings. sent s' = sent s @ pings \<and> snd ` set pings \<subseteq> {PingMsg})
       \<and> (\<forall>pre m. run B pre s' = Inr m \<and> Close w \<notin> set pre \<longrightarrow>
            \<not> registered m w \<and> readyState m w = Some CLOSING
            \<and> ((\<forall>x. Close x \<notin> set pre) \<longrightarrow> (\<forall>v. leaves (received m v) = leaves (received s v)))
            \<and> (\<exists>m'. step B (Close w) m = Inr m'
                 \<and> (\<forall>v. received m' v = received m v @
                        (if registered m v \<and> readyState m v = Some OPEN
                         then [LeaveMsg (p_id (heap s r))] else []))
                 \<and> (\<forall>post u. run B post m' = Inr u \<longrightarrow>
                        \<not> registered u w \<and> step B (Close w) u = Inr u
                        \<and> ((\<forall>x. Close x \<in> set post \<longrightarrow> x = w) \<longrightarrow>
                              (\<forall>v. leaves (received u v) = leaves (received m' v))))))
       \<and> (\<forall>rest u. run B rest s' = Inr u \<and> readyState u w = Some CLOSED \<longrightarrow>
            (\<exists>pre post m. rest = pre @ Close w # post \<and> Close w \<notin> set pre
                 \<and> run B pre s' = Inr m \<and> run B (Close w # post) m = Inr u))"
proof -
  have wf0: "wf s0" using reach by (rule wf_run)
  have wf1: "wf s1" using wf_step[OF wf0 at] .
  have wfs: "wf s" using wf_run_from[OF wf1 quiet] .
  have wf': "wf s'" using wf_step[OF wfs tick] .
  let ?c = "\<lparr>joined = True, pData = Some r\<rparr>"
  have cl: "closures s w = Some ?c" using wf_closure[OF wfs entry] .
  have pd: "pData ?c = Some r" by simp
  \<comment> \<open>the last acknowledgment\<close>
  from refreshes_sets_lastPing[OF wf0 ack at] obtain r1 where
    cl1: "closures s1 w = Some \<lparr>joined = True, pData = Some r1\<rparr>" and lp1: "p_lastPing (heap s1 r1) = t"
    by blast
  have pd1: "pData \<lparr>joined = True, pData = Some r1\<rparr> = Some r1" by simp
  note k1 = session_kept_run[OF wf1 cl1 pd1 quiet]
  from k1 cl have rr: "r1 = r" by simp
  have lp: "p_lastPing (heap s r) = t" using k1 nopong lp1 rr by simp
  have to: "timed_out now s (w, r)" using late lp by (simp add: timed_out_def)
  \<comment> \<open>the tick\<close>
  have dist: "distinct (map fst (players s))" using wfs by (rule wf_distinct)
  have s': "s' = heartbeat_loop now (players s) s" using tick by (simp add: heartbeat_def)
  have pl': "players s' = filter (\<lambda>e'. \<not> (\<exists>e \<in> set (players s). timed_out now s e \<and> fst e = fst e')) (players s)"
    by (simp add: s' heartbeat_loop_players)
  have a: "\<not> registered s' w"
    using entry to by (force simp: registered_iff pl')
  have sock: "readyState s w = Some OPEN \<or> readyState s w = Some CLOSING"
  proof -
    have "readyState s w \<noteq> None" using wf_socket[OF wfs cl] .
    moreover have "readyState s w \<noteq> Some CLOSED" using wf_unclosed[OF wfs entry] .
    moreover have "readyState s w \<noteq> Some CONNECTING"
    proof -
      have "run B (evs @ Message w (Decoded msg) t rnd # quiet) init = Inr s"
        using reach at quiet by (simp add: run_append)
      then show ?thesis by (rule never_connecting)
    qed
    ultimately obtain x where "readyState s w = Some x" "x \<noteq> CLOSED" "x \<noteq> CONNECTING"
      by auto
    then show ?thesis by (cases x) simp_all
  qed
  have b: "readyState s' w = Some CLOSING"
    using sock entry to by (auto simp: s' heartbeat_loop_readyState)
  let ?pings = "map (\<lambda>e. (fst e, PingMsg))
                  (filter (\<lambda>e. \<not> timed_out now s e \<and> readyState s (fst e) = Some OPEN) (players s))"
  have "sent s' = sent s @ ?pings"
    by (simp add: s' heartbeat_loop_sent[OF dist])
  then have c: "\<exists>pings. sent s' = sent s @ pings \<and> snd ` set pings \<subseteq> {PingMsg}"
    by (intro exI[of _ ?pings]) auto
  have cl': "closures s' w = Some ?c" using cl by (simp add: s')
  have id': "p_id (heap s' r) = p_id (heap s r)" by (simp add: s')
  \<comment> \<open>until the close\<close>
  have tl: "leaves (received s' v) = leaves (received s v)" for v
    using step_sends_no_leave[OF tick] by simp
  have d: "\<not> registered u w \<and> readyState u w = Some CLOSING
            \<and> ((\<forall>x. Close x \<notin> set rest) \<longrightarrow> (\<forall>v. leaves (received u v) = leaves (received s v)))
            \<and> (\<exists>u'. step B (Close w) u = Inr u'
                 \<and> (\<forall>v. received u' v = received u v @
                        (if registered u v \<and> readyState u v = Some OPEN
                         then [LeaveMsg (p_id (heap s r))] else []))
                 \<and> (\<forall>post u''. run B post u' = Inr u'' \<longrightarrow>
                        \<not> registered u'' w \<and> step B (Close w) u'' = Inr u''
                        \<and> ((\<forall>x. Close x \<in> set post \<longrightarrow> x = w) \<longrightarrow>
                              (\<forall>v. leaves (received u'' v) = leaves (received u' v)))))"
    if run: "run B rest s' = Inr u" and nc: "Close w \<notin> set rest" for rest u
  proof -
    note k = session_kept_run[OF wf' cl' pd run]
    have wfu: "wf u" and clu: "closures u w = Some ?c" and idu: "p_id (heap u r) = p_id (heap s r)"
      using k id' by simp_all
    have d1: "\<not> registered u w" using k a by blast
    have d2: "readyState u w = Some CLOSING" using k nc b by simp
    have lvu: "live u w" using d2 by (simp add: live_def)
    have d3: "(\<forall>x. Close x \<notin> set rest) \<longrightarrow> (\<forall>v. leaves (received u v) = leaves (received s v))"
    proof (intro impI allI)
      fix v assume "\<forall>x. Close x \<notin> set rest"
      then have "\<forall>x. Close x \<in> set rest \<longrightarrow> readyState s' x = Some CLOSED" by simp
      from leaves_need_a_close[OF run this] tl show "leaves (received u v) = leaves (received s v)"
        by simp
    qed
    obtain u' where st: "step B (Close w) u = Inr u'" using lvu by simp
    note cd = close_delivers_one_leave[OF wfu clu pd lvu st]
    have e1: "\<forall>v. received u' v = received u v @
                        (if registered u v \<and> readyState u v = Some OPEN
                         then [LeaveMsg (p_id (heap s r))] else [])"
    proof
      fix v
      have "registered u v \<and> v \<noteq> w \<and> readyState u v = Some OPEN
            \<longleftrightarrow> registered u v \<and> readyState u v = Some OPEN"
        using d1 by auto
      with cd(1)[of v] idu show "received u' v = received u v @
                        (if registered u v \<and> readyState u v = Some OPEN
                         then [LeaveMsg (p_id (heap s r))] else [])" by simp
    qed
    have wfu': "wf u'" using wf_step[OF wfu st] .
    have clu': "closures u' w = Some ?c" using clu by (simp add: cd(4))
    have cs: "readyState u' w = Some CLOSED" by (simp add: cd(3))
    have nru': "\<not> registered u' w" using d1 by (auto simp: cd(2) registered_def set_delete)
    have e2: "\<not> registered u'' w \<and> step B (Close w) u'' = Inr u''
                        \<and> ((\<forall>x. Close x \<in> set post \<longrightarrow> x = w) \<longrightarrow>
                              (\<forall>v. leaves (received u'' v) = leaves (received u' v)))"
      if prun: "run B post u' = Inr u''" for post u''
    proof -
      have "readyState u'' w = Some CLOSED" using closed_kept_run[OF prun cs] .
      then have nl: "\<not> live u'' w" by (simp add: live_def)
      have nr: "\<not> registered u'' w" using session_kept_run[OF wfu' clu' pd prun] nru' by blast
      have "\<forall>v. leaves (received u'' v) = leaves (received u' v)"
        if only: "\<forall>x. Close x \<in> set post \<longrightarrow> x = w"
      proof -
        have "\<forall>x. Close x \<in> set post \<longrightarrow> readyState u' x = Some CLOSED" using only cs by auto
        from leaves_need_a_close[OF prun this] show ?thesis by blast
      qed
      with nl nr show ?thesis by simp
    qed
    have d4: "\<exists>u'. step B (Close w) u = Inr u'
                 \<and> (\<forall>v. received u' v = received u v @
                        (if registered u v \<and> readyState u v = Some OPEN
                         then [LeaveMsg (p_id (heap s r))] else []))
                 \<and> (\<forall>post u''. run B post u' = Inr u'' \<longrightarrow>
                        \<not> registered u'' w \<and> step B (Close w) u'' = Inr u''
                        \<and> ((\<forall>x. Close x \<in> set post \<longrightarrow> x = w) \<longrightarrow>
                              (\<forall>v. leaves (received u'' v) = leaves (received u' v))))"
      apply (rule exI[of _ u'])
      apply (intro conjI st e1)
      using e2 by blast
    from d1 d2 d3 d4 show ?thesis by (intro conjI)
  qed
  have e: "\<exists>pre post m. rest = pre @ Close w # post \<and> Close w \<notin> set pre
                 \<and> run B pre s' = Inr m \<and> run B (Close w # post) m = Inr u"
    if run: "run B rest s' = Inr u" and cd: "readyState u w = Some CLOSED" for rest u
  proof -
    have "Close w \<in> set rest"
    proof (rule ccontr)
      assume "Close w \<notin> set rest"
      with session_kept_run[OF wf' cl' pd run] b have "readyState u w = Some CLOSING" by simp
      with cd show False by simp
    qed
    then obtain pre post where sp: "rest = pre @ Close w # post" "Close w \<notin> set pre"
      by (auto dest: split_list_first)
    from run obtain m where "run B pre s' = Inr m" "run B (Close w # post) m = Inr u"
      unfolding sp(1) run_append bind_err_Inr by blast
    with sp show ?thesis by blast
  qed
  show ?thesis
    apply (intro conjI a b c)
    using d apply blast
    using e by blast
qed

text \<open>
  Alice joins at 1000 and never answers a ping; Bob joins at 2000. The tick at 32000
  evicts Alice and pings Bob, who is exactly 30000 late and stays. Bob chats before the
  socket of Alice is reported closed: he has received no \<open>leave\<close> by then, receives one at
  the close, and a further close changes nothing.
\<close>

theorem heartbeat_eviction_witness:
  "\<not> registered (after B0 (lobby @ [Tick 32000])) 0
   \<and> readyState (after B0 (lobby @ [Tick 32000])) 0 = Some CLOSING
   \<and> registered (after B0 (lobby @ [Tick 32000])) 1
   \<and> leaves (received (after B0 (lobby @ [Tick 32000, Message 1 (Decoded (chat_msg ''hi'')) 33000 []])) 1) = []
   \<and> received (after B0 (lobby @ [Tick 32000, Message 1 (Decoded (chat_msg ''hi'')) 33000 [], Close 0])) 1
       = received (after B0 (lobby @ [Tick 32000, Message 1 (Decoded (chat_msg ''hi'')) 33000 []])) 1
         @ [LeaveMsg (js ''4fzyo82m'')]
   \<and> step B0 (Close 0) (after B0 (lobby @ [Tick 32000, Message 1 (Decoded (chat_msg ''hi'')) 33000 [], Close 0]))
       = Inr (after B0 (lobby @ [Tick 32000, Message 1 (Decoded (chat_msg ''hi'')) 33000 [], Close 0]))"
proof -
  let ?msg = "JObj [(js ''type'', JStr (js ''join'')), (js ''name'', JStr (js ''Alice''))]"
  let ?ack = "Message 0 (Decoded ?msg) 1000 (js ''0.4fzyo82mvyr'')"
  let ?quiet = "[Message 1 (join_frame ''Bob'') 2000 (js ''0.k3j9x0q1zzb'')]"
  let ?chat = "Message 1 (Decoded (chat_msg ''hi'')) 33000 []"
  let ?pa = "after B0 [Connection 0, Connection 1]"
  let ?pb = "after B0 ([Connection 0, Connection 1] @ [?ack])"
  let ?s = "after B0 lobby"
  let ?s' = "after B0 (lobby @ [Tick 32000])"
  let ?u = "after B0 ((lobby @ [Tick 32000]) @ [?chat])"
  let ?u' = "after B0 (((lobby @ [Tick 32000]) @ [?chat]) @ [Close 0])"
  have lob: "lobby = ([Connection 0, Connection 1] @ [?ack]) @ ?quiet"
    by (simp add: lobby_def join_frame_def)
  have reach: "run B0 [Connection 0, Connection 1] init = Inr ?pa"
    by (rule run_after) (simp add: run_defs)
  have ack: "refreshes ?pa 0 ?msg"
    by (simp add: refreshes_def after_def run_defs)
  have "\<exists>s'. step B0 ?ack ?pa = Inr s'"
    by (simp add: after_def run_defs)
  from step_after[OF reach this] have at: "step B0 ?ack ?pa = Inr ?pb"
    and r1: "run B0 ([Connection 0, Connection 1] @ [?ack]) init = Inr ?pb" .
  have quiet: "run B0 ?quiet ?pb = Inr ?s"
    using lobby_ok unfolding lob run_append[of B0 "[Connection 0, Connection 1] @ [?ack]"] r1
    by (simp only: bind_err_simps lob[symmetric])
  have nopong: "\<forall>ev \<in> set ?quiet. \<not> is_pong 0 ev" by (simp add: join_frame_def)
  have entry: "(0, 0) \<in> set (players ?s)" by (simp add: lobby_state)
  have late: "32000 - 1000 > HEARTBEAT_TIMEOUT" by (simp add: HEARTBEAT_TIMEOUT_def)
  have tick: "step B0 (Tick 32000) ?s = Inr ?s'" and r': "run B0 (lobby @ [Tick 32000]) init = Inr ?s'"
    by (rule step_after[OF lobby_ok], simp)+
  note th = heartbeat_eviction_one_leave[OF reach ack at quiet nopong entry late tick]
  have "\<exists>x. step B0 ?chat ?s' = Inr x"
    by (simp add: eval_defs)
  from step_after[OF r' this] have ch: "step B0 ?chat ?s' = Inr ?u"
    and ru: "run B0 ((lobby @ [Tick 32000]) @ [?chat]) init = Inr ?u" .
  have rest: "run B0 [?chat] ?s' = Inr ?u \<and> Close 0 \<notin> set [?chat]" using ch by simp
  have cls: "step B0 (Close 0) ?u = Inr ?u'"
    by (rule step_after[OF ru]) simp
  have noclose: "\<forall>x. Close x \<notin> set [?chat]" by simp
  from th rest have
    lv: "(\<forall>x. Close x \<notin> set [?chat]) \<longrightarrow> (\<forall>v. leaves (received ?u v) = leaves (received ?s v))"
    and ex: "\<exists>u'. step B0 (Close 0) ?u = Inr u'
                 \<and> (\<forall>v. received u' v = received ?u v @
                        (if registered ?u v \<and> readyState ?u v = Some OPEN
                         then [LeaveMsg (p_id (heap ?s 0))] else []))
                 \<and> (\<forall>post u''. run B0 post u' = Inr u'' \<longrightarrow>
                        \<not> registered u'' 0 \<and> step B0 (Close 0) u'' = Inr u''
                        \<and> ((\<forall>x. Close x \<in> set post \<longrightarrow> x = 0) \<longrightarrow>
                              (\<forall>v. leaves (received u'' v) = leaves (received u' v))))"
    by blast+
  from ex cls have
    rc: "\<forall>v. received ?u' v = received ?u v @
                        (if registered ?u v \<and> readyState ?u v = Some OPEN
                         then [LeaveMsg (p_id (heap ?s 0))] else [])"
    and po: "\<forall>post u''. run B0 post ?u' = Inr u'' \<longrightarrow> step B0 (Close 0) u'' = Inr u''"
    by auto
  have idA: "p_id (heap ?s 0) = js ''4fzyo82m''"
    by (simp add: lobby_state alice_def new_pdata_def)
  have regu: "registered ?u 1" "readyState ?u 1 = Some OPEN"
    by (simp_all add: eval_defs)
  have reg': "registered ?s' 1" by (simp add: eval_defs)
  have l': "leaves (received ?s 1) = []" using lobby_state(7) by (simp add: leaves_def)
  have a: "\<not> registered ?s' 0" and b: "readyState ?s' 0 = Some CLOSING" using th by blast+
  have c: "leaves (received ?u 1) = []" using lv noclose l' by simp
  have d: "received ?u' 1 = received ?u 1 @ [LeaveMsg (js ''4fzyo82m'')]"
    using rc regu idA by simp
  have e: "step B0 (Close 0) ?u' = Inr ?u'" using po[rule_format, of "[]" ?u'] by simp
  from a b reg' c d e show ?thesis by simp
qed

section \<open>C3: identifiers of live sessions\<close>

text \<open>
  C3, as stated, fails: two random numbers that agree on the eight digits \<open>genId\<close> keeps
  give two registered sessions the same identifier.
\<close>

theorem twin_ids:
  "run B0 twins init = Inr (after B0 twins)
   \<and> registry_ids (after B0 twins) = [js ''4fzyo82m'', js ''4fzyo82m'']
   \<and> \<not> distinct (registry_ids (after B0 twins))"
proof -
  have ok: "run B0 twins init = Inr (after B0 twins)"
    by (rule run_after) (simp add: twins_def run_defs)
  have ids: "registry_ids (after B0 twins) = [js ''4fzyo82m'', js ''4fzyo82m'']"
    by (simp add: after_def twins_def registry_ids_def run_defs)
  then have "\<not> distinct (registry_ids (after B0 twins))" by simp
  with ok ids show ?thesis by blast
qed

text \<open>
  C3, amended. In a state reached by a run in which every accepted join drew an
  identifier that no registered session carried at that moment, the identifiers of the
  registered sessions are pairwise distinct.
\<close>

theorem ids_unique_when_draws_fresh:
  assumes "run B evs init = Inr s" and "draws_fresh B evs init"
  shows "distinct (registry_ids s)"
  using ids_run_from[OF wf_init _ assms] by (simp add: registry_ids_def init_def)

theorem ids_unique_witness:
  "run B0 lobby init = Inr (after B0 lobby)
   \<and> registry_ids (after B0 lobby) = [js ''4fzyo82m'', js ''k3j9x0q1'']
   \<and> distinct (registry_ids (after B0 lobby))"
proof -
  have fresh: "draws_fresh B0 lobby init"
    by (simp add: lobby_def accepts_join_def registry_ids_def run_defs)
  have "registry_ids (after B0 lobby) = [js ''4fzyo82m'', js ''k3j9x0q1'']"
    by (simp add: registry_ids_def eval_defs)
  with ids_unique_when_draws_fresh[OF lobby_ok fresh] lobby_ok show ?thesis by blast
qed

section \<open>C4: a second close\<close>

text \<open>
  C4. The transport emits \<open>close\<close> once for a socket, and nothing after it. Let \<open>s\<close> be
  reachable, let \<open>w\<close> have joined and let its socket be live. The close of \<open>w\<close> delivers one
  \<open>leave\<close> to every other registered session that is open, and removes the entry of \<open>w\<close>. A
  second close then raises nothing and changes nothing: the state after two closes is the
  state after one. So is the state after an error and a close, in either order. After any
  further events a close or an error of \<open>w\<close> still changes nothing, the entry stays away, and
  nobody receives a \<open>leave\<close> as long as no other socket is closed.
\<close>

theorem double_close_is_single_close:
  assumes reach: "run B evs init = Inr s"
    and cl: "closures s w = Some c" and pd: "pData c = Some r"
    and lv: "live s w"
    and first: "step B (Close w) s = Inr s1"
  shows "(\<forall>v. received s1 v = received s v @
              (if registered s v \<and> v \<noteq> w \<and> readyState s v = Some OPEN
               then [LeaveMsg (p_id (heap s r))] else []))
       \<and> \<not> registered s1 w
       \<and> step B (Close w) s1 = Inr s1
       \<and> run B [Close w, Close w] s = Inr s1
       \<and> run B [Error w, Close w] s = Inr s1
       \<and> run B [Close w, Error w] s = Inr s1
       \<and> (\<forall>post u. run B post s1 = Inr u \<longrightarrow>
             step B (Close w) u = Inr u \<and> step B (Error w) u = Inr u \<and> \<not> registered u w
             \<and> ((\<forall>x. Close x \<in> set post \<longrightarrow> x = w) \<longrightarrow>
                   (\<forall>v. leaves (received u v) = leaves (received s1 v))))"
proof -
  have wfs: "wf s" using reach by (rule wf_run)
  have j: "joined c" using wf_joined[OF wfs cl] pd by simp
  note cd = close_delivers_one_leave[OF wfs cl pd lv first]
  have a: "\<forall>v. received s1 v = received s v @
              (if registered s v \<and> v \<noteq> w \<and> readyState s v = Some OPEN
               then [LeaveMsg (p_id (heap s r))] else [])"
    using cd(1) by blast
  have b: "\<not> registered s1 w" by (auto simp: cd(2) registered_def set_delete)
  have cs: "readyState s1 w = Some CLOSED" by (simp add: cd(3))
  have nl: "\<not> live s1 w" using cs by (simp add: live_def)
  have c: "step B (Close w) s1 = Inr s1" using nl by simp
  have d: "run B [Close w, Close w] s = Inr s1" using first c by simp
  have e: "run B [Error w, Close w] s = Inr s1"
  proof -
    let ?e = "s\<lparr>players := AList.delete w (players s)\<rparr>"
    have oe: "step B (Error w) s = Inr ?e" using cl lv by (simp add: on_error_def)
    have le: "live ?e w" using lv by (simp add: live_def)
    have "step B (Close w) ?e = Inr (on_close w (?e\<lparr>readyState := (readyState ?e)(w \<mapsto> CLOSED)\<rparr>))"
      using le by (rule step_Close)
    also have "on_close w (?e\<lparr>readyState := (readyState ?e)(w \<mapsto> CLOSED)\<rparr>) = s1"
      using cl pd by (simp add: on_close_joined cd(6) broadcast_eq targets_closed delete_idem)
    finally show ?thesis using oe by simp
  qed
  have f: "run B [Close w, Error w] s = Inr s1" using first nl by simp
  have wf1: "wf s1" using wf_step[OF wfs first] .
  have cl1: "closures s1 w = Some c" using cl by (simp add: cd(4))
  have g: "step B (Close w) u = Inr u \<and> step B (Error w) u = Inr u \<and> \<not> registered u w
           \<and> ((\<forall>x. Close x \<in> set post \<longrightarrow> x = w) \<longrightarrow>
                   (\<forall>v. leaves (received u v) = leaves (received s1 v)))"
    if run: "run B post s1 = Inr u" for post u
  proof -
    have "readyState u w = Some CLOSED" using closed_kept_run[OF run cs] .
    then have nlu: "\<not> live u w" by (simp add: live_def)
    have nr: "\<not> registered u w" using session_kept_run[OF wf1 cl1 pd run] b by blast
    have "\<forall>v. leaves (received u v) = leaves (received s1 v)" if only: "\<forall>x. Close x \<in> set post \<longrightarrow> x = w"
    proof -
      have "\<forall>x. Close x \<in> set post \<longrightarrow> readyState s1 x = Some CLOSED" using only cs by auto
      from leaves_need_a_close[OF run this] show ?thesis by blast
    qed
    with nlu nr show ?thesis by simp
  qed
  show ?thesis
    apply (intro conjI a b c d e f)
    using g by blast
qed

text \<open>
  Alice's connection is closed: Bob receives her \<open>leave\<close> once, whether the close comes
  once, twice, after an error or before one.
\<close>

theorem double_close_witness:
  "received (after B0 (lobby @ [Close 0])) 1
     = [WelcomeMsg (js ''k3j9x0q1'') [entry_of alice], LeaveMsg (js ''4fzyo82m'')]
   \<and> players (after B0 (lobby @ [Close 0])) = [(1, 1)]
   \<and> after B0 (lobby @ [Close 0, Close 0]) = after B0 (lobby @ [Close 0])
   \<and> after B0 (lobby @ [Error 0, Close 0]) = after B0 (lobby @ [Close 0])
   \<and> after B0 (lobby @ [Close 0, Error 0]) = after B0 (lobby @ [Close 0])"
proof -
  let ?s = "after B0 lobby"
  let ?s1 = "after B0 (lobby @ [Close 0])"
  have cl: "closures ?s 0 = Some \<lparr>joined = True, pData = Some 0\<rparr>" by (simp add: lobby_state)
  have pd: "pData \<lparr>joined = True, pData = Some 0\<rparr> = Some 0" by simp
  have first: "step B0 (Close 0) ?s = Inr ?s1" and r1: "run B0 (lobby @ [Close 0]) init = Inr ?s1"
    by (rule step_after[OF lobby_ok], simp)+
  note th = double_close_is_single_close[OF lobby_ok cl pd lobby_live(1) first]
  have idA: "p_id (heap ?s 0) = js ''4fzyo82m''"
    by (simp add: lobby_state alice_def new_pdata_def)
  have reg: "registered ?s 1" using lobby_state(1) by (simp add: registered_def)
  from th have "received ?s1 1 = received ?s 1 @
              (if registered ?s 1 \<and> (1::nat) \<noteq> 0 \<and> readyState ?s 1 = Some OPEN
               then [LeaveMsg (p_id (heap ?s 0))] else [])" by blast
  then have a: "received ?s1 1 = [WelcomeMsg (js ''k3j9x0q1'') [entry_of alice], LeaveMsg (js ''4fzyo82m'')]"
    using reg lobby_state(6,7) idA by simp
  have b: "players ?s1 = [(1, 1)]"
    using close_delivers_one_leave(2)[OF wf_run[OF lobby_ok] cl pd lobby_live(1) first]
    by (simp add: lobby_state)
  from th have "run B0 [Close 0, Close 0] ?s = Inr ?s1" by blast
  then have "run B0 (lobby @ [Close 0, Close 0]) init = Inr ?s1"
    by (simp add: run_append lobby_ok)
  then have c: "after B0 (lobby @ [Close 0, Close 0]) = ?s1" by (rule after_run)
  from th have "run B0 [Error 0, Close 0] ?s = Inr ?s1" by blast
  then have "run B0 (lobby @ [Error 0, Close 0]) init = Inr ?s1"
    by (simp add: run_append lobby_ok)
  then have d: "after B0 (lobby @ [Error 0, Close 0]) = ?s1" by (rule after_run)
  from th have "run B0 [Close 0, Error 0] ?s = Inr ?s1" by blast
  then have "run B0 (lobby @ [Close 0, Error 0]) init = Inr ?s1"
    by (simp add: run_append lobby_ok)
  then have e: "after B0 (lobby @ [Close 0, Error 0]) = ?s1" by (rule after_run)
  from a b c d e show ?thesis by simp
qed

section \<open>C5: chat is echoed, nothing else\<close>

text \<open>
  C5. Let \<open>s\<close> be reachable and let the handler of \<open>w\<close> process a message of type \<open>ty\<close>
  without raising. If \<open>ty\<close> is \<open>chat\<close> and the session is joined, every registered open
  session, the sender among them, receives one \<open>chat\<close> with the sanitized text when that
  text is not empty, and nobody receives anything when it is. For every other type the
  sender of a joined session receives nothing; if \<open>ty\<close> is \<open>move\<close>, \<open>equip\<close>, \<open>stats\<close>,
  \<open>attack\<close>, \<open>enemyKill\<close> or \<open>groundDrop\<close>, every other registered open session receives
  one payload of that type. If \<open>ty\<close> is \<open>join\<close> and the session is not joined yet, the
  sender receives the \<open>welcome\<close> (when its socket is open) and not the \<open>join\<close>, which every
  other registered open session receives; any other type is ignored before the join.
\<close>

theorem chat_is_the_only_echo:
  assumes reach: "run B evs init = Inr s"
    and cl: "closures s w = Some c"
    and ty: "fld msg ''type'' = Some (JStr (js ty))"
    and ok: "on_message B now rnd w (Decoded msg) s = Inr s'"
  shows "(ty = ''chat'' \<and> joined c \<longrightarrow>
           (\<exists>r t. pData c = Some r \<and> chat_text (fld msg ''text'') = Inr t \<and>
              (\<forall>v. received s' v = received s v @
                 (if t \<noteq> [] \<and> registered s v \<and> readyState s v = Some OPEN
                  then [ChatMsg (p_id (heap s r)) (p_name (heap s r)) t] else []))))
       \<and> (ty \<noteq> ''chat'' \<and> joined c \<longrightarrow> received s' w = received s w)
       \<and> (ty \<in> {''move'', ''equip'', ''stats'', ''attack'', ''enemyKill'', ''groundDrop''} \<and> joined c \<longrightarrow>
            (\<exists>d. ptype d = ty \<and>
               (\<forall>v. v \<noteq> w \<longrightarrow> received s' v = received s v @
                  (if registered s v \<and> readyState s v = Some OPEN then [d] else []))))
       \<and> (ty = ''join'' \<and> \<not> joined c \<longrightarrow>
            (\<exists>i ps n. received s' w = received s w @
                  (if readyState s w = Some OPEN then [WelcomeMsg i ps] else []) \<and>
               (\<forall>v. v \<noteq> w \<longrightarrow> received s' v = received s v @
                  (if registered s v \<and> readyState s v = Some OPEN then [JoinMsg i n] else []))))
       \<and> (ty \<noteq> ''join'' \<and> \<not> joined c \<longrightarrow> s' = s)"
proof -
  have wfs: "wf s" using reach by (rule wf_run)
  have dist: "distinct (map fst (players s))" using wfs by (rule wf_distinct)
  have nn: "msg \<noteq> JNull" using ty by (rule fld_type_not_null)
  have chat: "\<exists>r t. pData c = Some r \<and> chat_text (fld msg ''text'') = Inr t \<and>
              (\<forall>v. received s' v = received s v @
                 (if t \<noteq> [] \<and> registered s v \<and> readyState s v = Some OPEN
                  then [ChatMsg (p_id (heap s r)) (p_name (heap s r)) t] else []))"
    if "ty = ''chat''" "joined c"
  proof -
    from wf_joined[OF wfs cl] that(2) obtain r where r: "pData c = Some r" by auto
    have hc: "handle_chat w (pData c) msg s = Inr s'"
      using ok cl that ty nn by (simp add: on_message_def)
    then obtain t where t: "chat_text (fld msg ''text'') = Inr t"
      and s': "s' = (if t \<noteq> [] then broadcast (ChatMsg (p_id (heap s r)) (p_name (heap s r)) t) None s else s)"
      using r by (auto simp: handle_chat_def bind_err_Inr deref_def split: if_splits)
    have "\<forall>v. received s' v = received s v @
                 (if t \<noteq> [] \<and> registered s v \<and> readyState s v = Some OPEN
                  then [ChatMsg (p_id (heap s r)) (p_name (heap s r)) t] else [])"
      by (simp add: s' received_broadcast[OF dist])
    with r t show ?thesis by blast
  qed
  have quiet: "received s' w = received s w" if "ty \<noteq> ''chat''" "joined c"
  proof -
    have "sent s' = sent s \<or> (\<exists>t. relayed t w s s')"
      using ok cl that ty nn
      by (auto simp: on_message_def handle_pong_def bind_err_Inr split: if_splits dest: relays)
    then show ?thesis
    proof
      assume "sent s' = sent s" then show ?thesis by (simp add: received_def)
    next
      assume "\<exists>t. relayed t w s s'"
      then obtain t where "relayed t w s s'" ..
      from received_relayed[OF this dist] show ?thesis ..
    qed
  qed
  have relay: "\<exists>d. ptype d = ty \<and>
               (\<forall>v. v \<noteq> w \<longrightarrow> received s' v = received s v @
                  (if registered s v \<and> readyState s v = Some OPEN then [d] else []))"
    if "ty \<in> {''move'', ''equip'', ''stats'', ''attack'', ''enemyKill'', ''groundDrop''}" "joined c"
  proof -
    have "relayed ty w s s'"
      using ok cl that ty nn by (auto simp: on_message_def dest: relays)
    from received_relayed[OF this dist] show ?thesis ..
  qed
  have jn: "\<exists>i ps n. received s' w = received s w @
                  (if readyState s w = Some OPEN then [WelcomeMsg i ps] else []) \<and>
               (\<forall>v. v \<noteq> w \<longrightarrow> received s' v = received s v @
                  (if registered s v \<and> readyState s v = Some OPEN then [JoinMsg i n] else []))"
    if "ty = ''join''" "\<not> joined c"
  proof -
    have hj: "handle_join now rnd w msg s = Inr s'"
      using ok cl that ty nn by (simp add: on_message_def)
    from join_received[OF wfs cl that(2) hj] show ?thesis by blast
  qed
  have pending: "s' = s" if "ty \<noteq> ''join''" "\<not> joined c"
    using ok cl that ty nn by (simp add: on_message_def)
  show ?thesis
  proof (intro conjI impI)
    assume a: "ty = ''chat'' \<and> joined c"
    from a have "ty = ''chat''" "joined c" by simp_all
    then show "\<exists>r t. pData c = Some r \<and> chat_text (fld msg ''text'') = Inr t \<and>
              (\<forall>v. received s' v = received s v @
                 (if t \<noteq> [] \<and> registered s v \<and> readyState s v = Some OPEN
                  then [ChatMsg (p_id (heap s r)) (p_name (heap s r)) t] else []))"
      by (rule chat)
  next
    assume a: "ty \<noteq> ''chat'' \<and> joined c"
    from a have "ty \<noteq> ''chat''" "joined c" by simp_all
    then show "received s' w = received s w" by (rule quiet)
  next
    assume a: "ty \<in> {''move'', ''equip'', ''stats'', ''attack'', ''enemyKill'', ''groundDrop''} \<and> joined c"
    from a have m: "ty \<in> {''move'', ''equip'', ''stats'', ''attack'', ''enemyKill'', ''groundDrop''}"
      and j: "joined c" by simp_all
    from relay[OF m j] show "\<exists>d. ptype d = ty \<and>
               (\<forall>v. v \<noteq> w \<longrightarrow> received s' v = received s v @
                  (if registered s v \<and> readyState s v = Some OPEN then [d] else []))" .
  next
    assume a: "ty = ''join'' \<and> \<not> joined c"
    from a have "ty = ''join''" "\<not> joined c" by simp_all
    then show "\<exists>i ps n. received s' w = received s w @
                  (if readyState s w = Some OPEN then [WelcomeMsg i ps] else []) \<and>
               (\<forall>v. v \<noteq> w \<longrightarrow> received s' v = received s v @
                  (if registered s v \<and> readyState s v = Some OPEN then [JoinMsg i n] else []))"
      by (rule jn)
  next
    assume a: "ty \<noteq> ''join'' \<and> \<not> joined c"
    from a have "ty \<noteq> ''join''" "\<not> joined c" by simp_all
    then show "s' = s" by (rule pending)
  qed
qed

text \<open>Alice's chat comes back to her and reaches Bob; her move does not come back.\<close>

theorem chat_echo_witness:
  "received (after B0 (lobby @ [Message 0 (Decoded (chat_msg ''hi'')) 3000 []])) 0
     = received (after B0 lobby) 0 @ [ChatMsg (js ''4fzyo82m'') (js ''Alice'') (js ''hi'')]
   \<and> received (after B0 (lobby @ [Message 0 (Decoded (chat_msg ''hi'')) 3000 []])) 1
     = received (after B0 lobby) 1 @ [ChatMsg (js ''4fzyo82m'') (js ''Alice'') (js ''hi'')]
   \<and> received (after B0 (lobby @ [Message 0 (Decoded (move_msg 5 0 0 True)) 3000 []])) 0
     = received (after B0 lobby) 0"
proof -
  let ?s = "after B0 lobby"
  let ?c = "\<lparr>joined = True, pData = Some 0\<rparr>"
  have cl: "closures ?s 0 = Some ?c" by (simp add: lobby_state)
  have idA: "p_id (heap ?s 0) = js ''4fzyo82m''" "p_name (heap ?s 0) = js ''Alice''"
    by (simp_all add: lobby_state alice_def new_pdata_def)
  have reg: "registered ?s 0" "registered ?s 1" using lobby_state(1) by (simp_all add: registered_def)
  have opn: "readyState ?s 0 = Some OPEN" "readyState ?s 1 = Some OPEN" using lobby_state(5,6) by simp_all
  \<comment> \<open>the chat\<close>
  let ?chat = "after B0 (lobby @ [Message 0 (Decoded (chat_msg ''hi'')) 3000 []])"
  have ty1: "fld (chat_msg ''hi'') ''type'' = Some (JStr (js ''chat''))"
    by (simp add: chat_msg_def fld_def)
  have tx: "chat_text (fld (chat_msg ''hi'') ''text'') = Inr (js ''hi'')"
    by (simp add: chat_msg_def fld_def chat_text_def or_else_def sanitize_chat_def slice0 strip_def js_def)
  have nn1: "chat_msg ''hi'' \<noteq> JNull" using ty1 by (rule fld_type_not_null)
  have "\<exists>s'. on_message B0 3000 [] 0 (Decoded (chat_msg ''hi'')) ?s = Inr s'"
    by (simp add: on_message_def cl ty1 nn1 handle_chat_def tx deref_def)
  then have ok1: "on_message B0 3000 [] 0 (Decoded (chat_msg ''hi'')) ?s = Inr ?chat"
    using step_after(1)[OF lobby_ok, of "Message 0 (Decoded (chat_msg ''hi'')) 3000 []"] lobby_live
    by simp
  from chat_is_the_only_echo[OF lobby_ok cl ty1 ok1] obtain r t where
    r: "pData ?c = Some r" and t: "chat_text (fld (chat_msg ''hi'') ''text'') = Inr t"
    and e: "\<forall>v. received ?chat v = received ?s v @
                 (if t \<noteq> [] \<and> registered ?s v \<and> readyState ?s v = Some OPEN
                  then [ChatMsg (p_id (heap ?s r)) (p_name (heap ?s r)) t] else [])"
    by auto
  have r0: "r = 0" using r by simp
  have t0: "t = js ''hi''" using t tx by simp
  have a: "received ?chat 0 = received ?s 0 @ [ChatMsg (js ''4fzyo82m'') (js ''Alice'') (js ''hi'')]"
    using e[rule_format, of 0] reg opn idA by (simp add: r0 t0)
  have b: "received ?chat 1 = received ?s 1 @ [ChatMsg (js ''4fzyo82m'') (js ''Alice'') (js ''hi'')]"
    using e[rule_format, of 1] reg opn idA by (simp add: r0 t0)
  \<comment> \<open>the move\<close>
  let ?move = "after B0 (lobby @ [Message 0 (Decoded (move_msg 5 0 0 True)) 3000 []])"
  have ty2: "fld (move_msg 5 0 0 True) ''type'' = Some (JStr (js ''move''))"
    by (simp add: move_msg_def fld_def)
  have nn2: "move_msg 5 0 0 True \<noteq> JNull" using ty2 by (rule fld_type_not_null)
  have "\<exists>s'. on_message B0 3000 [] 0 (Decoded (move_msg 5 0 0 True)) ?s = Inr s'"
    by (simp add: on_message_def cl ty2 nn2 handle_move_def deref_def num_or_def Let_def)
       (simp add: move_msg_def fld_def)
  then have ok2: "on_message B0 3000 [] 0 (Decoded (move_msg 5 0 0 True)) ?s = Inr ?move"
    using step_after(1)[OF lobby_ok, of "Message 0 (Decoded (move_msg 5 0 0 True)) 3000 []"] lobby_live
    by simp
  have c: "received ?move 0 = received ?s 0"
    using chat_is_the_only_echo[OF lobby_ok cl ty2 ok2] by simp
  from a b c show ?thesis by blast
qed

section \<open>C6: sanitization of names and chat text\<close>

text \<open>
  C6. The sanitizer of names (cut to 16 code units, then drop \<open><\<close>, \<open>>\<close>, \<open>&\<close>, the double
  and the single quote) and the sanitizer of chat text (cut to 200 code units, then drop
  \<open><\<close>, \<open>>\<close>, \<open>&\<close>) are idempotent; their output holds none of the dropped characters
  (code units 60, 62, 38, 34, 39) and is at most 16, respectively 200, code units long;
  the output depends on the first 16, respectively 200, code units of the input only;
  a name of 17 letters loses its 17th and a text of 201 letters its 201st; and for every
  string the expressions of the join and chat handlers return a value and raise nothing.
\<close>

theorem sanitize_idempotent_capped:
  "sanitize_name (sanitize_name s) = sanitize_name s
   \<and> sanitize_chat (sanitize_chat t) = sanitize_chat t
   \<and> 60 \<notin> set (sanitize_chat t) \<and> 62 \<notin> set (sanitize_chat t) \<and> 38 \<notin> set (sanitize_chat t)
   \<and> 60 \<notin> set (sanitize_name s) \<and> 62 \<notin> set (sanitize_name s) \<and> 38 \<notin> set (sanitize_name s)
   \<and> 34 \<notin> set (sanitize_name s) \<and> 39 \<notin> set (sanitize_name s)
   \<and> length (sanitize_name s) \<le> 16 \<and> length (sanitize_chat t) \<le> 200
   \<and> sanitize_name (take 16 s) = sanitize_name s
   \<and> sanitize_chat (take 200 t) = sanitize_chat t
   \<and> sanitize_name (js ''abcdefghijklmnopq'') = js ''abcdefghijklmnop''
   \<and> sanitize_chat (replicate 200 97 @ [98]) = replicate 200 97
   \<and> join_name (Some (JStr (u # s))) = Inr (sanitize_name (u # s))
   \<and> chat_text (Some (JStr t)) = Inr (sanitize_chat t)"
proof -
  have a: "sanitize_name (sanitize_name s) = sanitize_name s"
    by (simp add: sanitize_name_def slice0 take_strip_take strip_idem)
  have b: "sanitize_chat (sanitize_chat t) = sanitize_chat t"
    by (simp add: sanitize_chat_def slice0 take_strip_take strip_idem)
  have c: "60 \<notin> set (sanitize_chat t) \<and> 62 \<notin> set (sanitize_chat t) \<and> 38 \<notin> set (sanitize_chat t)"
    by (simp add: sanitize_chat_def strip_def js_def)
  have d: "60 \<notin> set (sanitize_name s) \<and> 62 \<notin> set (sanitize_name s) \<and> 38 \<notin> set (sanitize_name s)
           \<and> 34 \<notin> set (sanitize_name s) \<and> 39 \<notin> set (sanitize_name s)"
    by (simp add: sanitize_name_def strip_def js_def)
  have e: "length (sanitize_name s) \<le> 16"
    using strip_length[of "js [CHR ''<'', CHR ''>'', CHR ''&'', CHR 0x22, CHR 0x27]" "take 16 s"] by (simp add: sanitize_name_def slice0)
  have f: "length (sanitize_chat t) \<le> 200"
    using strip_length[of "js ''<>&''" "take 200 t"] by (simp add: sanitize_chat_def slice0)
  have g: "sanitize_name (take 16 s) = sanitize_name s"
    by (simp add: sanitize_name_def slice0)
  have h: "sanitize_chat (take 200 t) = sanitize_chat t"
    by (simp add: sanitize_chat_def slice0)
  have i: "sanitize_name (js ''abcdefghijklmnopq'') = js ''abcdefghijklmnop''"
    by (simp add: sanitize_name_def slice0 strip_def js_def)
  have j: "sanitize_chat (replicate 200 97 @ [98]) = replicate 200 97"
    by (simp add: sanitize_chat_def slice0 strip_def js_def)
  have k: "join_name (Some (JStr (u # s))) = Inr (sanitize_name (u # s))"
    by (simp add: join_name_def or_else_def)
  have l: "chat_text (Some (JStr t)) = Inr (sanitize_chat t)"
    by (simp add: chat_text_def or_else_def)
  from a b c d e f g h i j k l show ?thesis by blast
qed

text \<open>
  The default \<open>'Player'\<close> is applied before the sanitizer and only to a falsy name: a name
  made of dropped characters gives an empty display name, which a second pass through the
  whole expression of the join handler would replace by the default.
\<close>

lemma join_name_of_dropped_characters:
  "join_name (Some (JStr (js ''<>''))) = Inr []
   \<and> join_name (Some (JStr [])) = Inr (js ''Player'')"
  by (simp add: join_name_def or_else_def sanitize_name_def slice0 strip_def js_def)

section \<open>C7: the roster of the welcome message\<close>

text \<open>
  C7. Let \<open>s\<close> be reached by the events \<open>evs\<close>, and let an open connection \<open>w\<close> that has
  not joined send a \<open>join\<close> that the handler processes without raising. Then \<open>w\<close> receives
  one \<open>welcome\<close>. Its roster lists, in the order of the registry, one entry for each
  registered connection, and this entry is the view that the spec gives the session of
  that connection after \<open>evs\<close>: the identifier and the name of its join, the position and
  the flag of its last \<open>move\<close>, the equipment of its last \<open>equip\<close> and the stats of its last
  \<open>stats\<close> message, coerced, or the defaults. Every registered connection is listed once;
  \<open>w\<close> is not among them, and is appended to the registry.
\<close>

theorem welcome_lists_the_other_sessions:
  assumes reach: "run B evs init = Inr s"
    and cl: "closures s w = Some c" and nj: "\<not> joined c"
    and op: "readyState s w = Some OPEN"
    and ty: "fld msg ''type'' = Some (JStr (js ''join''))"
    and ok: "on_message B now rnd w (Decoded msg) s = Inr s'"
  shows "\<exists>roster. received s' w = received s w @ [WelcomeMsg (genId rnd) roster]
          \<and> map Some roster = map (views_after B evs) (map fst (players s))
          \<and> distinct (map fst (players s))
          \<and> w \<notin> set (map fst (players s))
          \<and> players s' = players s @ [(w, nextRef s)]"
proof -
  have wfs: "wf s" using reach by (rule wf_run)
  have hj: "handle_join now rnd w msg s = Inr s'"
    using ok cl nj ty fld_type_not_null[OF ty] by (simp add: on_message_def)
  have nr: "w \<notin> fst ` set (players s)" using wfs cl nj by (rule wf_not_registered)
  let ?roster = "map (\<lambda>e. entry_of (heap s (snd e))) (players s)"
  from join_received[OF wfs cl nj hj] op
  have a: "received s' w = received s w @ [WelcomeMsg (genId rnd) ?roster]"
    and e: "players s' = players s @ [(w, nextRef s)]" by auto
  have "Some (entry_of (heap s (snd e))) = views_after B evs (fst e)" if "e \<in> set (players s)" for e
  proof -
    have "closures s (fst e) = Some \<lparr>joined = True, pData = Some (snd e)\<rparr>"
      using wf_closure[OF wfs, of "fst e" "snd e"] that by simp
    from views_after_refines[OF reach this] show ?thesis by simp
  qed
  then have b: "map Some ?roster = map (views_after B evs) (map fst (players s))"
    by simp
  have c: "distinct (map fst (players s))" using wfs by (rule wf_distinct)
  have d: "w \<notin> set (map fst (players s))" using nr by simp
  show ?thesis
    by (rule exI[of _ ?roster]) (intro conjI a b c d e)
qed

text \<open>
  Bob's welcome shows Alice where her move put her, with the laser she took and the
  level and hit points she reported.
\<close>

theorem welcome_witness:
  "received (after B0 (moved @ [Message 1 (join_frame ''Bob'') 2000 (js ''0.k3j9x0q1zzb'')])) 1
     = [WelcomeMsg (js ''k3j9x0q1'')
          [\<lparr>r_id = js ''4fzyo82m'', r_name = js ''Alice'', r_x = Num 5, r_z = Num 0, r_ry = Num 0,
            r_moving = True, r_equipment = JObj [(js ''weapon'', JStr (js ''laser''))],
            r_stats = \<lparr>level = Num 7, combatStyle = JStr (js ''nano''), hp = Num 80,
                       maxHp = Num 100, area = JStr (js ''station-hub'')\<rparr>\<rparr>]]
   \<and> players (after B0 (moved @ [Message 1 (join_frame ''Bob'') 2000 (js ''0.k3j9x0q1zzb'')]))
     = [(0, 0), (1, 1)]"
proof -
  let ?s = "after B0 moved"
  let ?msg = "JObj [(js ''type'', JStr (js ''join'')), (js ''name'', JStr (js ''Bob''))]"
  let ?ev = "Message 1 (Decoded ?msg) 2000 (js ''0.k3j9x0q1zzb'')"
  let ?s' = "after B0 (moved @ [?ev])"
  let ?alice = "\<lparr>r_id = js ''4fzyo82m'', r_name = js ''Alice'', r_x = Num 5, r_z = Num 0, r_ry = Num 0,
            r_moving = True, r_equipment = JObj [(js ''weapon'', JStr (js ''laser''))],
            r_stats = \<lparr>level = Num 7, combatStyle = JStr (js ''nano''), hp = Num 80,
                       maxHp = Num 100, area = JStr (js ''station-hub'')\<rparr>\<rparr>"
  have mv: "run B0 moved init = Inr ?s"
    by (rule run_after)
       (simp add: moved_def run_defs handler_defs handle_equip_def handle_stats_def
          equip_msg_def stats_msg_def)
  have st: "players ?s = [(0, 0)]" "received ?s (Suc 0) = []" "nextRef ?s = Suc 0"
    "closures ?s (Suc 0) = Some \<lparr>joined = False, pData = None\<rparr>" "readyState ?s (Suc 0) = Some OPEN"
    by (simp_all add: moved_def eval_defs handle_equip_def handle_stats_def equip_msg_def stats_msg_def)
  have view: "views_after B0 moved 0 = Some ?alice"
    by (simp add: views_after_def moved_def spec_update_def spec_join_def accepts_join_def
          default_stats_def eval_defs handle_equip_def handle_stats_def equip_msg_def stats_msg_def)
  have nj: "\<not> joined \<lparr>joined = False, pData = None\<rparr>" by simp
  have ty: "fld ?msg ''type'' = Some (JStr (js ''join''))" by (simp add: fld_def)
  have "\<exists>s'. on_message B0 2000 (js ''0.k3j9x0q1zzb'') 1 (Decoded ?msg) ?s = Inr s'"
    using st(4) by (simp add: on_message_def fld_def handle_join_def join_name_def or_else_def Let_def)
  then have ok: "on_message B0 2000 (js ''0.k3j9x0q1zzb'') 1 (Decoded ?msg) ?s = Inr ?s'"
    using step_after(1)[OF mv, of ?ev] st(5) by (simp add: live_def)
  have g: "genId (js ''0.k3j9x0q1zzb'') = js ''k3j9x0q1''"
    by (simp add: genId_def slice_list_def js_def)
  from welcome_lists_the_other_sessions[OF mv _ nj _ ty ok] st
  obtain roster where
    r: "received ?s' 1 = received ?s 1 @ [WelcomeMsg (genId (js ''0.k3j9x0q1zzb'')) roster]"
    and v: "map Some roster = map (views_after B0 moved) (map fst (players ?s))"
    and p: "players ?s' = players ?s @ [(1, nextRef ?s)]"
    by auto
  from v have "roster = [?alice]" by (auto simp: st view)
  with r p show ?thesis using st by (simp add: g join_frame_def)
qed

section \<open>C8: the quantity of a ground drop is at most 1000\<close>

text \<open>
  C8. Let \<open>s\<close> be reachable. When the handler of a joined session processes a \<open>groundDrop\<close>
  without raising, every registered open session but the sender receives one \<open>groundDrop\<close>
  with the identifier and name of the sender, the coerced \<open>x\<close>, \<open>z\<close> and \<open>itemId\<close>, and
  the quantity \<open>Math.min(Number(msg.quantity) || 1, 1000)\<close>; nothing else changes. That
  quantity is at most 1000, and it is 1000 for the quantity 5000.
\<close>

theorem groundDrop_quantity_at_most_1000:
  assumes reach: "run B evs init = Inr s"
    and cl: "closures s w = Some c" and j: "joined c"
    and ty: "fld msg ''type'' = Some (JStr (js ''groundDrop''))"
    and ok: "on_message B now rnd w (Decoded msg) s = Inr s'"
  shows "\<exists>r x z item q. pData c = Some r
          \<and> num_or B (fld msg ''x'') (Num 0) = Inr x \<and> num_or B (fld msg ''z'') (Num 0) = Inr z
          \<and> item_id (fld msg ''itemId'') = Inr item
          \<and> drop_quantity B (fld msg ''quantity'') = Inr q
          \<and> s' = broadcast (GroundDropMsg (p_id (heap s r)) (p_name (heap s r)) x z item q) (Some w) s
          \<and> (\<forall>v. received s' v = received s v @
                (if registered s v \<and> v \<noteq> w \<and> readyState s v = Some OPEN
                 then [GroundDropMsg (p_id (heap s r)) (p_name (heap s r)) x z item q] else []))
          \<and> js_le q (Num 1000)
          \<and> (fld msg ''quantity'' = Some (JNum (Num 5000)) \<longrightarrow> q = Num 1000)"
proof -
  from groundDrop_sent[OF assms] obtain r x z item q where f: "pData c = Some r"
    "num_or B (fld msg ''x'') (Num 0) = Inr x" "num_or B (fld msg ''z'') (Num 0) = Inr z"
    "item_id (fld msg ''itemId'') = Inr item" "drop_quantity B (fld msg ''quantity'') = Inr q"
    "s' = broadcast (GroundDropMsg (p_id (heap s r)) (p_name (heap s r)) x z item q) (Some w) s"
    "\<forall>v. received s' v = received s v @
                (if registered s v \<and> v \<noteq> w \<and> readyState s v = Some OPEN
                 then [GroundDropMsg (p_id (heap s r)) (p_name (heap s r)) x z item q] else [])"
    by blast
  have a: "js_le q (Num 1000)" using f(5) by (rule drop_quantity_le)
  have b: "fld msg ''quantity'' = Some (JNum (Num 5000)) \<longrightarrow> q = Num 1000"
    using f(5) by (auto simp: drop_quantity_Num)
  show ?thesis
    by (rule exI[of _ r], rule exI[of _ x], rule exI[of _ z], rule exI[of _ item], rule exI[of _ q])
       (intro conjI f a b)
qed

text \<open>Bob receives Alice's 5000 pieces of ore as 1000; Alice receives nothing.\<close>

theorem groundDrop_5000_witness:
  "received (after B0 (lobby @ [Message 0 (Decoded (drop_msg (Some (JNum (Num 5000))))) 3000 []])) 1
     = received (after B0 lobby) 1
       @ [GroundDropMsg (js ''4fzyo82m'') (js ''Alice'') (Num 0) (Num 0) (JStr (js ''ore'')) (Num 1000)]
   \<and> received (after B0 (lobby @ [Message 0 (Decoded (drop_msg (Some (JNum (Num 5000))))) 3000 []])) 0
     = received (after B0 lobby) 0"
proof -
  let ?s = "after B0 lobby"
  let ?v = "Some (JNum (Num 5000))"
  let ?s' = "after B0 (lobby @ [Message 0 (Decoded (drop_msg ?v)) 3000 []])"
  have cl: "closures ?s 0 = Some \<lparr>joined = True, pData = Some 0\<rparr>" by (simp add: lobby_state)
  have j: "joined \<lparr>joined = True, pData = Some 0\<rparr>" by simp
  have n: "\<exists>n. ToNumber B0 ?v = Inr n" by simp
  note d = lobby_drop[OF n]
  from groundDrop_quantity_at_most_1000[OF lobby_ok cl j d(2) d(1)] obtain r x z item q where
    f: "pData \<lparr>joined = True, pData = Some 0\<rparr> = Some r"
    "num_or B0 (fld (drop_msg ?v) ''x'') (Num 0) = Inr x"
    "num_or B0 (fld (drop_msg ?v) ''z'') (Num 0) = Inr z"
    "item_id (fld (drop_msg ?v) ''itemId'') = Inr item"
    "\<forall>v. received ?s' v = received ?s v @
                (if registered ?s v \<and> v \<noteq> 0 \<and> readyState ?s v = Some OPEN
                 then [GroundDropMsg (p_id (heap ?s r)) (p_name (heap ?s r)) x z item q] else [])"
    "fld (drop_msg ?v) ''quantity'' = ?v \<longrightarrow> q = Num 1000"
    by blast
  have v: "r = 0" "x = Num 0" "z = Num 0" "item = JStr (js ''ore'')" "q = Num 1000"
    using f d by simp_all
  have idA: "p_id (heap ?s 0) = js ''4fzyo82m''" "p_name (heap ?s 0) = js ''Alice''"
    by (simp_all add: lobby_state alice_def new_pdata_def)
  have reg: "registered ?s 1" using lobby_state(1) by (simp add: registered_def)
  have opn: "readyState ?s 1 = Some OPEN" using lobby_state(6) by simp
  have a: "received ?s' 1 = received ?s 1
       @ [GroundDropMsg (js ''4fzyo82m'') (js ''Alice'') (Num 0) (Num 0) (JStr (js ''ore'')) (Num 1000)]"
    using f(5)[rule_format, of 1] reg opn idA by (simp add: v)
  have b: "received ?s' 0 = received ?s 0"
    using f(5)[rule_format, of 0] by simp
  from a b show ?thesis ..
qed

section \<open>C9: a join without a name\<close>

text \<open>
  C9. A \<open>join\<close> whose name is missing or falsy (\<open>null\<close>, \<open>false\<close>, \<open>0\<close>, the empty
  string), sent on a connection that has not joined, raises nothing and registers a
  session whose name is \<open>Player\<close>.
\<close>

theorem join_without_name_is_Player:
  assumes cl: "closures s w = Some c" and nj: "\<not> joined c"
    and ty: "fld msg ''type'' = Some (JStr (js ''join''))"
    and falsy: "\<not> truthy (fld msg ''name'')"
  shows "\<exists>s'. on_message B now rnd w (Decoded msg) s = Inr s'
            \<and> map_of (players s') w = Some (nextRef s)
            \<and> p_name (heap s' (nextRef s)) = js ''Player''
            \<and> closures s' w = Some \<lparr>joined = True, pData = Some (nextRef s)\<rparr>"
proof -
  let ?j = "joined_state now rnd (js ''Player'') w s"
  let ?s' = "broadcast (JoinMsg (genId rnd) (js ''Player'')) (Some w)
               (sendTo w (WelcomeMsg (genId rnd) (existing_loop w (heap ?j) (players ?j))) ?j)"
  have "handle_join now rnd w msg s = Inr ?s'"
    unfolding handle_join_eq using join_name_falsy[OF falsy] by simp
  then have "on_message B now rnd w (Decoded msg) s = Inr ?s'"
    using cl nj ty fld_type_not_null[OF ty] by (simp add: on_message_def)
  moreover have "map_of (players ?s') w = Some (nextRef s)"
    by (simp add: joined_state_def update_conv')
  moreover have "p_name (heap ?s' (nextRef s)) = js ''Player''"
    by (simp add: joined_state_def new_pdata_def)
  moreover have "closures ?s' w = Some \<lparr>joined = True, pData = Some (nextRef s)\<rparr>"
    by (simp add: joined_state_def)
  ultimately show ?thesis by blast
qed

theorem join_without_name_witness:
  "\<exists>s'. on_message B0 1000 (js ''0.4fzyo82mvyr'') 0 (Decoded bare_join) (after B0 [Connection 0]) = Inr s'
       \<and> map_of (players s') 0 = Some 0
       \<and> p_name (heap s' 0) = js ''Player''
       \<and> closures s' 0 = Some \<lparr>joined = True, pData = Some 0\<rparr>"
proof -
  let ?s = "after B0 [Connection 0]"
  have st: "closures ?s 0 = Some \<lparr>joined = False, pData = None\<rparr>" "nextRef ?s = 0"
    by (simp_all add: eval_defs)
  have nj: "\<not> joined \<lparr>joined = False, pData = None\<rparr>" by simp
  have ty: "fld bare_join ''type'' = Some (JStr (js ''join''))" by (simp add: bare_join_def fld_def)
  have nm: "\<not> truthy (fld bare_join ''name'')" by (simp add: bare_join_def fld_def js_def)
  from join_without_name_is_Player[OF st(1) nj ty nm, of B0 1000 "js ''0.4fzyo82mvyr''"]
  show ?thesis by (simp add: st(2))
qed

section \<open>C10: default and lower end of the quantity\<close>

text \<open>
  C10. Let \<open>s\<close> be reachable. When the handler of a joined session processes a
  \<open>groundDrop\<close> without raising, the quantity that every registered open session but the
  sender receives is 1 when the field is missing, when \<open>Number\<close> makes \<open>NaN\<close> of it and
  when \<open>Number\<close> makes 0 of it; a negative number, \<open>-Infinity\<close> included, is broadcast as it
  came.
\<close>

theorem groundDrop_quantity_default_one_no_floor:
  assumes reach: "run B evs init = Inr s"
    and cl: "closures s w = Some c" and j: "joined c"
    and ty: "fld msg ''type'' = Some (JStr (js ''groundDrop''))"
    and ok: "on_message B now rnd w (Decoded msg) s = Inr s'"
  shows "\<exists>r x z item q. pData c = Some r
          \<and> num_or B (fld msg ''x'') (Num 0) = Inr x \<and> num_or B (fld msg ''z'') (Num 0) = Inr z
          \<and> item_id (fld msg ''itemId'') = Inr item
          \<and> drop_quantity B (fld msg ''quantity'') = Inr q
          \<and> s' = broadcast (GroundDropMsg (p_id (heap s r)) (p_name (heap s r)) x z item q) (Some w) s
          \<and> (\<forall>v. received s' v = received s v @
                (if registered s v \<and> v \<noteq> w \<and> readyState s v = Some OPEN
                 then [GroundDropMsg (p_id (heap s r)) (p_name (heap s r)) x z item q] else []))
          \<and> (fld msg ''quantity'' = None \<longrightarrow> q = Num 1)
          \<and> (ToNumber B (fld msg ''quantity'') = Inr NaN \<longrightarrow> q = Num 1)
          \<and> (ToNumber B (fld msg ''quantity'') = Inr (Num 0) \<longrightarrow> q = Num 1)
          \<and> (\<forall>a. a < 0 \<longrightarrow> fld msg ''quantity'' = Some (JNum (Num a)) \<longrightarrow> q = Num a)
          \<and> (fld msg ''quantity'' = Some (JNum NegInf) \<longrightarrow> q = NegInf)"
proof -
  from groundDrop_sent[OF assms] obtain r x z item q where f: "pData c = Some r"
    "num_or B (fld msg ''x'') (Num 0) = Inr x" "num_or B (fld msg ''z'') (Num 0) = Inr z"
    "item_id (fld msg ''itemId'') = Inr item" "drop_quantity B (fld msg ''quantity'') = Inr q"
    "s' = broadcast (GroundDropMsg (p_id (heap s r)) (p_name (heap s r)) x z item q) (Some w) s"
    "\<forall>v. received s' v = received s v @
                (if registered s v \<and> v \<noteq> w \<and> readyState s v = Some OPEN
                 then [GroundDropMsg (p_id (heap s r)) (p_name (heap s r)) x z item q] else [])"
    by blast
  note q = f(5)
  have a: "fld msg ''quantity'' = None \<longrightarrow> q = Num 1"
    using q by (auto simp: drop_quantity_def num_or_def truthy_num_def Math_min_def)
  have b: "ToNumber B (fld msg ''quantity'') = Inr NaN \<longrightarrow> q = Num 1"
    using q by (auto simp: drop_quantity_def num_or_def truthy_num_def Math_min_def)
  have c: "ToNumber B (fld msg ''quantity'') = Inr (Num 0) \<longrightarrow> q = Num 1"
    using q by (auto simp: drop_quantity_def num_or_def truthy_num_def Math_min_def)
  have d: "\<forall>a. a < 0 \<longrightarrow> fld msg ''quantity'' = Some (JNum (Num a)) \<longrightarrow> q = Num a"
    using q by (auto simp: drop_quantity_Num)
  have e: "fld msg ''quantity'' = Some (JNum NegInf) \<longrightarrow> q = NegInf"
    using q by (auto simp: drop_quantity_def num_or_def truthy_num_def Math_min_def)
  show ?thesis
    by (rule exI[of _ r], rule exI[of _ x], rule exI[of _ z], rule exI[of _ item], rule exI[of _ q])
       (intro conjI f a b c d e)
qed

text \<open>Bob receives the quantities \<open>-5\<close>, none and \<open>0\<close> as \<open>-5\<close>, \<open>1\<close> and \<open>1\<close>.\<close>

theorem groundDrop_default_witness:
  "received (after B0 (lobby @ [Message 0 (Decoded (drop_msg (Some (JNum (Num (- 5)))))) 3000 []])) 1
     = received (after B0 lobby) 1
       @ [GroundDropMsg (js ''4fzyo82m'') (js ''Alice'') (Num 0) (Num 0) (JStr (js ''ore'')) (Num (- 5))]
   \<and> received (after B0 (lobby @ [Message 0 (Decoded (drop_msg None)) 3000 []])) 1
     = received (after B0 lobby) 1
       @ [GroundDropMsg (js ''4fzyo82m'') (js ''Alice'') (Num 0) (Num 0) (JStr (js ''ore'')) (Num 1)]
   \<and> received (after B0 (lobby @ [Message 0 (Decoded (drop_msg (Some (JNum (Num 0))))) 3000 []])) 1
     = received (after B0 lobby) 1
       @ [GroundDropMsg (js ''4fzyo82m'') (js ''Alice'') (Num 0) (Num 0) (JStr (js ''ore'')) (Num 1)]"
proof -
  let ?s = "after B0 lobby"
  have cl: "closures ?s 0 = Some \<lparr>joined = True, pData = Some 0\<rparr>" by (simp add: lobby_state)
  have j: "joined \<lparr>joined = True, pData = Some 0\<rparr>" by simp
  have idA: "p_id (heap ?s 0) = js ''4fzyo82m''" "p_name (heap ?s 0) = js ''Alice''"
    by (simp_all add: lobby_state alice_def new_pdata_def)
  have reg: "registered ?s 1" using lobby_state(1) by (simp add: registered_def)
  have opn: "readyState ?s 1 = Some OPEN" using lobby_state(6) by simp
  have gen: "received (after B0 (lobby @ [Message 0 (Decoded (drop_msg v)) 3000 []])) 1
     = received ?s 1
       @ [GroundDropMsg (js ''4fzyo82m'') (js ''Alice'') (Num 0) (Num 0) (JStr (js ''ore'')) q0]"
    if n: "\<exists>n. ToNumber B0 v = Inr n"
      and q0: "v = None \<and> q0 = Num 1 \<or> ToNumber B0 v = Inr (Num 0) \<and> q0 = Num 1
               \<or> v = Some (JNum (Num (- 5))) \<and> q0 = Num (- 5)"
    for v q0
  proof -
    let ?s' = "after B0 (lobby @ [Message 0 (Decoded (drop_msg v)) 3000 []])"
    note d = lobby_drop[OF n]
    from groundDrop_quantity_default_one_no_floor[OF lobby_ok cl j d(2) d(1)]
    obtain r x z item q where
      f: "pData \<lparr>joined = True, pData = Some 0\<rparr> = Some r"
      "num_or B0 (fld (drop_msg v) ''x'') (Num 0) = Inr x"
      "num_or B0 (fld (drop_msg v) ''z'') (Num 0) = Inr z"
      "item_id (fld (drop_msg v) ''itemId'') = Inr item"
      "\<forall>u. received ?s' u = received ?s u @
                (if registered ?s u \<and> u \<noteq> 0 \<and> readyState ?s u = Some OPEN
                 then [GroundDropMsg (p_id (heap ?s r)) (p_name (heap ?s r)) x z item q] else [])"
      "fld (drop_msg v) ''quantity'' = None \<longrightarrow> q = Num 1"
      "ToNumber B0 (fld (drop_msg v) ''quantity'') = Inr (Num 0) \<longrightarrow> q = Num 1"
      "\<forall>a. a < 0 \<longrightarrow> fld (drop_msg v) ''quantity'' = Some (JNum (Num a)) \<longrightarrow> q = Num a"
      by (elim exE conjE) (rule that)
    have v: "r = 0" "x = Num 0" "z = Num 0" "item = JStr (js ''ore'')"
      using f d by simp_all
    have q: "q = q0"
      using q0 f(6,7) f(8)[rule_format, of "- 5"] by (auto simp: d(3))
    show ?thesis
      using f(5)[rule_format, of 1] reg opn idA by (simp add: v q)
  qed
  have a: "received (after B0 (lobby @ [Message 0 (Decoded (drop_msg (Some (JNum (Num (- 5)))))) 3000 []])) 1
     = received ?s 1
       @ [GroundDropMsg (js ''4fzyo82m'') (js ''Alice'') (Num 0) (Num 0) (JStr (js ''ore'')) (Num (- 5))]"
    by (rule gen) simp_all
  have b: "received (after B0 (lobby @ [Message 0 (Decoded (drop_msg None)) 3000 []])) 1
     = received ?s 1
       @ [GroundDropMsg (js ''4fzyo82m'') (js ''Alice'') (Num 0) (Num 0) (JStr (js ''ore'')) (Num 1)]"
    by (rule gen) simp_all
  have c: "received (after B0 (lobby @ [Message 0 (Decoded (drop_msg (Some (JNum (Num 0))))) 3000 []])) 1
     = received ?s 1
       @ [GroundDropMsg (js ''4fzyo82m'') (js ''Alice'') (Num 0) (Num 0) (JStr (js ''ore'')) (Num 1)]"
    by (rule gen) simp_all
  from a b c show ?thesis by blast
qed

end
